theory Spec2Isabelle
  imports Complex_Main "HOL-Library.Multiset" "HOL-Library.Char_ord" "HOL-Library.List_Lexorder"
begin

section \<open>The corruption engine of gecko (gecko/corruptor.py)\<close>

text \<open>
  A corruptor is a closure over its configuration and a random generator; it takes a
  pandas series of strings and returns a series.  Series and generators are mutable
  objects that the caller and the corruptor share, so both live in an explicit store
  and are passed by address.

  A series is the list of its values together with its index, which gives every row its
  label: \<open>index st a p\<close> is the label of row \<open>p\<close> of the series at address \<open>a\<close>.  Labels are
  numbers here (only their equality matters); the default index labels a row with its
  position.  A filtered view of a series keeps the labels of its rows: it is a list of
  (position, value) pairs, the position being that of the row in the series the view was
  taken from, where its label is found.  \<open>update\<close> aligns on the labels.
\<close>

subsection \<open>The random generator\<close>

text \<open>
  numpy's generator is a bit generator seeded from a seed sequence.  \<open>entropy\<close> gives, for
  each spawn key, the raw 53-bit integers that the bit generator seeded with that key
  produces; \<open>pos\<close> counts the ones that were consumed.  \<open>random\<close> scales one raw integer
  into [0, 1), as numpy does (an integer below 2^53 times 2^-53).
\<close>

record rng =
  entropy :: "nat list \<Rightarrow> nat \<Rightarrow> nat"
  spawn_key :: "nat list"
  pos :: nat
  n_children_spawned :: nat

definition uniform :: "rng \<Rightarrow> nat \<Rightarrow> rat" where
  "uniform g k = of_nat (entropy g (spawn_key g) k mod 2 ^ 53) / 2 ^ 53"

datatype error = ValueError string | KeyError string | IndexError string | TypeError string

record store =
  series :: "nat \<Rightarrow> string list"
  index :: "nat \<Rightarrow> nat \<Rightarrow> nat"
  n_series :: nat
  rngs :: "nat \<Rightarrow> rng"
  n_rngs :: nat

datatype 'a result = Return 'a store | Raise error store

type_synonym corruptor = "store \<Rightarrow> nat \<Rightarrow> nat result"

text \<open>\<open>rng.random(size=n)\<close>: the next n values, each in [0, 1).\<close>

definition rng_random :: "nat \<Rightarrow> nat \<Rightarrow> store \<Rightarrow> rat list \<times> store" where
  "rng_random r n st =
     (let g = rngs st r
      in (map (uniform g) [pos g ..< pos g + n],
          st\<lparr>rngs := (rngs st)(r := g\<lparr>pos := pos g + n\<rparr>)\<rparr>))"

text \<open>\<open>np.floor(length * value).astype(int)\<close>\<close>

definition floor_index :: "nat \<Rightarrow> rat \<Rightarrow> nat" where
  "floor_index l u = nat \<lfloor>of_nat l * u\<rfloor>"

text \<open>
  \<open>rng.choice(a, size=n)\<close> without weights, on an array a: n members of a, each at a
  uniformly drawn position; numpy raises ValueError when a is empty and n is not 0.
\<close>

definition rng_choice :: "nat \<Rightarrow> 'a list \<Rightarrow> nat \<Rightarrow> store \<Rightarrow> ('a list) result" where
  "rng_choice r a n st =
     (if a = [] \<and> 0 < n
      then Raise (ValueError ''a cannot be empty unless no samples are taken'') st
      else case rng_random r n st of
             (us, st') \<Rightarrow> Return (map (\<lambda>u. a ! floor_index (length a) u) us) st')"

text \<open>
  When \<open>rng.choice\<close> is given a Python list of strings, numpy first makes it an array of
  fixed-width strings, and an element of such an array reads back without its trailing NUL
  characters: the one-character string NUL reads back as the empty string.  A NaN among
  strings becomes the string \<open>nan\<close>; a list of NaN only is an array of floats, and stays
  as it is.
\<close>

definition np_str :: "string \<Rightarrow> string" where
  "np_str s = rev (dropWhile (\<lambda>c. c = CHR 0x00) (rev s))"

definition np_array :: "string option list \<Rightarrow> string option list" where
  "np_array xs =
     (if list_all (\<lambda>x. x = None) xs then xs
      else map (\<lambda>x. Some (case x of None \<Rightarrow> ''nan'' | Some s \<Rightarrow> np_str s)) xs)"

subsection \<open>Series\<close>

text \<open>\<open>srs.copy()\<close>: a new series object with the same values and the same index.\<close>

definition series_copy :: "store \<Rightarrow> nat \<Rightarrow> nat \<times> store" where
  "series_copy st a =
     (n_series st,
      st\<lparr>series := (series st)(n_series st := series st a),
         index := (index st)(n_series st := index st a),
         n_series := Suc (n_series st)\<rparr>)"

text \<open>\<open>srs.index\<close>: the labels of the rows, in order.\<close>

definition row_labels :: "store \<Rightarrow> nat \<Rightarrow> nat list" where
  "row_labels st a = map (index st a) [0..<length (series st a)]"

text \<open>
  \<open>srs.update(other)\<close>, in place.  \<open>other\<close> holds rows of a series that has the index of
  srs, each given by its position there, with a value or NaN.  pandas first reindexes
  \<open>other\<close> like srs: that is \<open>other\<close> itself when it has the labels of srs, row for row;
  otherwise it raises ValueError when two rows of \<open>other\<close> have the same label, and else it
  looks the label of every row of srs up in \<open>other\<close>.  Then every row of srs for which
  that gave a value takes it.
\<close>

definition update_in_place :: "nat \<Rightarrow> (nat \<times> string option) list \<Rightarrow> store \<Rightarrow> unit result" where
  "update_in_place a other st =
     (let self_index = row_labels st a;
          other_index = map (\<lambda>(p, v). index st a p) other;
          putmask = (\<lambda>reindexed.
            Return ()
              (st\<lparr>series := (series st)
                     (a := map2 (\<lambda>y v. case v of Some x \<Rightarrow> x | None \<Rightarrow> y)
                             (series st a) reindexed)\<rparr>))
      in if other_index = self_index then putmask (map snd other)
         else if \<not> distinct other_index
         then Raise (ValueError ''cannot reindex on an axis with duplicate labels'') st
         else putmask (map (\<lambda>l. case map_of (zip other_index (map snd other)) l of
                                  Some v \<Rightarrow> v | None \<Rightarrow> None)
                         self_index))"

text \<open>
  The loop \<open>for i in arr_uniq_idx: srs.update(other(i))\<close>; it ends at the first update
  that raises.
\<close>

fun update_each ::
  "nat \<Rightarrow> (nat \<Rightarrow> (nat \<times> string option) list) \<Rightarrow> nat list \<Rightarrow> store \<Rightarrow> unit result" where
  "update_each a other [] st = Return () st"
| "update_each a other (i # arr_uniq_idx) st =
     (case update_in_place a (other i) st of
        Raise e st' \<Rightarrow> Raise e st'
      | Return _ st' \<Rightarrow> update_each a other arr_uniq_idx st')"

text \<open>\<open>arr.unique()\<close>: the distinct values in the order of their first appearance.\<close>

definition unique :: "'a list \<Rightarrow> 'a list" where
  "unique xs = rev (remdups (rev xs))"

text \<open>\<open>view[indices == i]\<close>: the rows of a view whose drawn index is i.\<close>

definition select_rows :: "nat \<Rightarrow> ((nat \<times> string) \<times> nat) list \<Rightarrow> (nat \<times> string) list" where
  "select_rows i zs = map fst (filter (\<lambda>(row, j). j = i) zs)"

text \<open>\<open>srs[srs.str.len() >= k]\<close>\<close>

definition min_len_view :: "nat \<Rightarrow> string list \<Rightarrow> (nat \<times> string) list" where
  "min_len_view k xs = filter (\<lambda>(p, s). k \<le> length s) (enumerate 0 xs)"

subsection \<open>with\_noop\<close>

definition with_noop :: corruptor where
  "with_noop st srs_in = Return srs_in st"

subsection \<open>with\_delete\<close>

definition delete_at :: "nat \<Rightarrow> string \<Rightarrow> string" where
  \<comment> \<open>\<open>s.str.slice_replace(i, i + 1, "")\<close>\<close>
  "delete_at i s = take i s @ drop (i + 1) s"

definition with_delete :: "nat \<Rightarrow> corruptor" where
  "with_delete r st srs_str_in =
     (let srs_str_out_min_len = min_len_view 1 (series st srs_str_in)
      in if length srs_str_out_min_len = 0 then Return srs_str_in st
         else
           case series_copy st srs_str_in of (srs_str_out, st1) \<Rightarrow>
           case rng_random r (length srs_str_out_min_len) st1 of (arr_rng_vals, st2) \<Rightarrow>
           let arr_rng_delete_indices =
                 map2 (\<lambda>(p, s) u. floor_index (length s) u) srs_str_out_min_len arr_rng_vals;
               arr_uniq_idx = unique arr_rng_delete_indices
           in (case update_each srs_str_out
                      (\<lambda>i. map (\<lambda>(p, s). (p, Some (delete_at i s)))
                              (select_rows i (zip srs_str_out_min_len arr_rng_delete_indices)))
                      arr_uniq_idx st2 of
                 Raise e st3 \<Rightarrow> Raise e st3
               | Return _ st3 \<Rightarrow> Return srs_str_out st3))"

subsection \<open>with\_transpose\<close>

definition transpose_at :: "nat \<Rightarrow> string \<Rightarrow> string" where
  \<comment> \<open>\<open>s[:i] + s[i + 1] + s[i] + s[i + 2:]\<close>, for i + 1 within s\<close>
  "transpose_at i s = take i s @ [s ! (i + 1)] @ [s ! i] @ drop (i + 2) s"

definition with_transpose :: "nat \<Rightarrow> corruptor" where
  "with_transpose r st srs_str_in =
     (let srs_str_out_min_len = min_len_view 2 (series st srs_str_in)
      in if length srs_str_out_min_len = 0 then Return srs_str_in st
         else
           case series_copy st srs_str_in of (srs_str_out, st1) \<Rightarrow>
           case rng_random r (length srs_str_out_min_len) st1 of (arr_rng_vals, st2) \<Rightarrow>
           let arr_rng_transpose_indices =
                 map2 (\<lambda>(p, s) u. floor_index (length s - 1) u) srs_str_out_min_len arr_rng_vals;
               arr_uniq_idx = unique arr_rng_transpose_indices
           in (case update_each srs_str_out
                      (\<lambda>i. map (\<lambda>(p, s). (p, Some (transpose_at i s)))
                              (select_rows i (zip srs_str_out_min_len arr_rng_transpose_indices)))
                      arr_uniq_idx st2 of
                 Raise e st3 \<Rightarrow> Raise e st3
               | Return _ st3 \<Rightarrow> Return srs_str_out st3))"

subsection \<open>with\_substitute\<close>

definition substitute_at :: "nat \<Rightarrow> string \<Rightarrow> string \<Rightarrow> string" where
  \<comment> \<open>\<open>s[:i] + c + s[i + 1:]\<close>, c being the string that was drawn\<close>
  "substitute_at i c s = take i s @ c @ drop (i + 1) s"

definition with_substitute :: "string \<Rightarrow> nat \<Rightarrow> corruptor" where
  "with_substitute charset r st srs_str_in =
     (let srs_str_out_min_len = min_len_view 1 (series st srs_str_in)
      in if length srs_str_out_min_len = 0 then Return srs_str_in st
         else
           case series_copy st srs_str_in of (srs_str_out, st1) \<Rightarrow>
           let str_count = length srs_str_out_min_len
           in case rng_random r str_count st1 of (arr_rng_vals, st2) \<Rightarrow>
           let arr_rng_sub_indices =
                 map2 (\<lambda>(p, s) u. floor_index (length s) u) srs_str_out_min_len arr_rng_vals
           in (case rng_choice r (map (\<lambda>c. np_str [c]) charset) str_count st2 of
                 Raise e st3 \<Rightarrow> Raise e st3
               | Return srs_rand_chars st3 \<Rightarrow>
                   let arr_uniq_idx = unique arr_rng_sub_indices
                   in (case update_each srs_str_out
                              (\<lambda>i. map (\<lambda>((p, s), c). (p, Some (substitute_at i c s)))
                                      (map fst (filter (\<lambda>(row, j). j = i)
                                         (zip (zip srs_str_out_min_len srs_rand_chars)
                                            arr_rng_sub_indices))))
                              arr_uniq_idx st3 of
                         Raise e st4 \<Rightarrow> Raise e st4
                       | Return _ st4 \<Rightarrow> Return srs_str_out st4)))"

subsection \<open>with\_insert\<close>

definition insert_at :: "nat \<Rightarrow> string \<Rightarrow> string \<Rightarrow> string" where
  \<comment> \<open>\<open>s[:i] + c + s[i:]\<close>, c being the string that was drawn\<close>
  "insert_at i c s = take i s @ c @ drop i s"

text \<open>
  \<open>srs[indices == i] = f(srs[indices == i])\<close>, in place: the rows whose drawn index is i
  are rewritten, each with the value drawn for it.  An assignment through a boolean mask
  goes by position, whatever the labels.
\<close>

definition assign_masked ::
  "nat \<Rightarrow> (nat \<Rightarrow> 'c \<Rightarrow> string \<Rightarrow> string) \<Rightarrow> nat list \<Rightarrow> 'c list \<Rightarrow> string list \<Rightarrow> string list" where
  "assign_masked i f idxs cs ys =
     map (\<lambda>(j, c, y). if j = i then f i c y else y) (zip idxs (zip cs ys))"

definition series_assign_masked ::
  "nat \<Rightarrow> nat \<Rightarrow> (nat \<Rightarrow> 'c \<Rightarrow> string \<Rightarrow> string) \<Rightarrow> nat list \<Rightarrow> 'c list \<Rightarrow> store \<Rightarrow> store" where
  "series_assign_masked a i f idxs cs st =
     st\<lparr>series := (series st)(a := assign_masked i f idxs cs (series st a))\<rparr>"

definition with_insert :: "string \<Rightarrow> nat \<Rightarrow> corruptor" where
  "with_insert charset r st srs_str_in =
     (case series_copy st srs_str_in of (srs_str_out, st1) \<Rightarrow>
      let str_count = length (series st1 srs_str_out);
          srs_str_out_len = map length (series st1 srs_str_out)
      in case rng_random r str_count st1 of (arr_rng_vals, st2) \<Rightarrow>
      let arr_rng_insert_indices =
            map2 (\<lambda>l u. floor_index (l + 1) u) srs_str_out_len arr_rng_vals
      in (case rng_choice r (map (\<lambda>c. np_str [c]) charset) str_count st2 of
            Raise e st3 \<Rightarrow> Raise e st3
          | Return srs_rand_chars st3 \<Rightarrow>
              let arr_uniq_idx = unique arr_rng_insert_indices
              in Return srs_str_out
                   (fold (\<lambda>i. series_assign_masked srs_str_out i insert_at
                            arr_rng_insert_indices srs_rand_chars)
                      arr_uniq_idx st3)))"


subsection \<open>with\_missing\_value\<close>

text \<open>\<open>pd.Series(data=..., index=...)\<close>: a new series object.\<close>

definition series_new :: "(nat \<Rightarrow> nat) \<Rightarrow> string list \<Rightarrow> store \<Rightarrow> nat \<times> store" where
  "series_new idx vals st =
     (n_series st,
      st\<lparr>series := (series st)(n_series st := vals),
         index := (index st)(n_series st := idx),
         n_series := Suc (n_series st)\<rparr>)"

text \<open>\<open>srs[msk] = value\<close>, in place.\<close>

definition series_fill :: "nat \<Rightarrow> (string \<Rightarrow> bool) \<Rightarrow> string \<Rightarrow> store \<Rightarrow> store" where
  "series_fill a msk v st =
     st\<lparr>series := (series st)(a := map (\<lambda>s. if msk s then v else s) (series st a))\<rparr>"

definition corrupt_all_from_value :: "string \<Rightarrow> corruptor" where
  "corrupt_all_from_value v st str_in_srs =
     (case series_new (index st str_in_srs) (replicate (length (series st str_in_srs)) v) st of
        (out, st') \<Rightarrow> Return out st')"

definition corrupt_only_empty_from_value :: "string \<Rightarrow> corruptor" where
  "corrupt_only_empty_from_value v st str_in_srs =
     (case series_copy st str_in_srs of
        (str_out_srs, st1) \<Rightarrow> Return str_out_srs (series_fill str_out_srs (\<lambda>s. s = []) v st1))"

text \<open>
  The characters that \<open>str.strip()\<close> removes: those for which \<open>str.isspace()\<close> holds,
  among the first 256 code points.
\<close>

definition is_space :: "char \<Rightarrow> bool" where
  "is_space c = ((of_char c :: nat) \<in> {9, 10, 11, 12, 13, 28, 29, 30, 31, 32, 133, 160})"

definition strip :: "string \<Rightarrow> string" where
  "strip s = rev (dropWhile is_space (rev (dropWhile is_space s)))"

definition corrupt_only_blank_from_value :: "string \<Rightarrow> corruptor" where
  "corrupt_only_blank_from_value v st str_in_srs =
     (case series_copy st str_in_srs of
        (str_out_srs, st1) \<Rightarrow>
          Return str_out_srs (series_fill str_out_srs (\<lambda>s. strip s = []) v st1))"

definition with_missing_value :: "string \<Rightarrow> string \<Rightarrow> error + corruptor" where
  "with_missing_value v strategy =
     (if strategy = ''all'' then Inr (corrupt_all_from_value v)
      else if strategy = ''blank'' then Inr (corrupt_only_blank_from_value v)
      else if strategy = ''empty'' then Inr (corrupt_only_empty_from_value v)
      else Inl (ValueError (''unrecognized replacement strategy: '' @ strategy)))"

subsection \<open>with\_cldr\_keymap\_file\<close>

text \<open>
  The keymap file is parsed into the grid \<open>kb_map\<close> (gecko.cldr and lxml do that, outside
  this module).  The constructor then walks the grid: \<open>kb_cells\<close> lists, in that order,
  each cell with the cells at its neighbouring positions, as the constructor reads them; a
  cell reads as one character or as nothing.  The grid is a numpy array of one-character
  strings, from which NUL reads as nothing: no candidate is NUL, and the array that
  \<open>rng.choice\<close> makes of the candidates holds them as they are.
\<close>

definition kb_char_candidates :: "char \<Rightarrow> char option list \<Rightarrow> string" where
  "kb_char_candidates kb_char neighbors =
     sort (remdups (filter (\<lambda>c. c \<noteq> kb_char) (map the (filter (\<lambda>cell. cell \<noteq> None) neighbors))))"

definition kb_char_to_candidates_dict ::
  "(char option \<times> char option list) list \<Rightarrow> (char \<rightharpoonup> string)" where
  "kb_char_to_candidates_dict kb_cells =
     fold (\<lambda>(cell, neighbors) d.
             case cell of
               None \<Rightarrow> d
             | Some kb_char \<Rightarrow>
                 if 0 < length (kb_char_candidates kb_char neighbors)
                 then d(kb_char \<mapsto> kb_char_candidates kb_char neighbors) else d)
       kb_cells Map.empty"

text \<open>\<open>s.str[i]\<close>: the character at i, or NaN past the end.\<close>

definition str_get :: "nat \<Rightarrow> string \<Rightarrow> char option" where
  "str_get i s = (if i < length s then Some (s ! i) else None)"

text \<open>\<open>srs[msk] = values\<close>: the selected rows take the values, in order.\<close>

fun put_mask :: "bool list \<Rightarrow> 'a list \<Rightarrow> 'a list \<Rightarrow> 'a list" where
  "put_mask (True # ms) (x # xs) (v # vs) = v # put_mask ms xs vs"
| "put_mask (False # ms) (x # xs) vs = x # put_mask ms xs vs"
| "put_mask ms xs vs = xs"

text \<open>The loop over the distinct selected characters, which draws the replacements.\<close>

fun draw_replacements ::
  "(char \<rightharpoonup> string) \<Rightarrow> nat \<Rightarrow> char option list \<Rightarrow> char option list \<Rightarrow> char option list
     \<Rightarrow> store \<Rightarrow> (char option list) result" where
  "draw_replacements d r srs_typo_chars [] srs_repl_chars st = Return srs_repl_chars st"
| "draw_replacements d r srs_typo_chars (None # chars) srs_repl_chars st =
     draw_replacements d r srs_typo_chars chars srs_repl_chars st"
| "draw_replacements d r srs_typo_chars (Some c # chars) srs_repl_chars st =
     (case d c of
        None \<Rightarrow> draw_replacements d r srs_typo_chars chars srs_repl_chars st
      | Some char_candidates \<Rightarrow>
          let msk = map (\<lambda>t. t = Some c) srs_typo_chars;
              char_count = length (filter (\<lambda>b. b) msk)
          in (case rng_choice r char_candidates char_count st of
                Raise e st' \<Rightarrow> Raise e st'
              | Return rand_chars st' \<Rightarrow>
                  draw_replacements d r srs_typo_chars chars
                    (put_mask msk srs_repl_chars (map Some rand_chars)) st'))"

definition replace_at :: "nat \<Rightarrow> char option \<Rightarrow> string \<Rightarrow> string" where
  \<comment> \<open>\<open>s[:i] + c + s[i + 1:]\<close> on the rows whose replacement is not NaN\<close>
  "replace_at i repl s = (case repl of None \<Rightarrow> s | Some c \<Rightarrow> take i s @ [c] @ drop (i + 1) s)"

definition with_cldr_keymap_file ::
  "(char option \<times> char option list) list \<Rightarrow> nat \<Rightarrow> corruptor" where
  "with_cldr_keymap_file kb_cells r st srs_str_in =
     (case series_copy st srs_str_in of (srs_str_out, st1) \<Rightarrow>
      let str_count = length (series st1 srs_str_out);
          srs_str_out_len = map length (series st1 srs_str_out)
      in case rng_random r str_count st1 of (arr_rng_vals, st2) \<Rightarrow>
      let arr_rng_typo_indices = map2 floor_index srs_str_out_len arr_rng_vals;
          arr_uniq_idx = unique arr_rng_typo_indices;
          srs_typo_chars =
            fold (\<lambda>i tc. map (\<lambda>(j, s, old). if j = i then str_get i s else old)
                            (zip arr_rng_typo_indices (zip (series st2 srs_str_out) tc)))
              arr_uniq_idx (replicate str_count None);
          arr_uniq_chars = unique srs_typo_chars
      in (case draw_replacements (kb_char_to_candidates_dict kb_cells) r srs_typo_chars
                 arr_uniq_chars (replicate str_count None) st2 of
            Raise e st3 \<Rightarrow> Raise e st3
          | Return srs_repl_chars st3 \<Rightarrow>
              Return srs_str_out
                (fold (\<lambda>i. series_assign_masked srs_str_out i replace_at
                         arr_rng_typo_indices srs_repl_chars)
                   arr_uniq_idx st3)))"

subsection \<open>with\_categorical\_values\<close>

text \<open>
  A column of a CSV file is named by its header or by its position
  (\<open>Union[str, int]\<close>).
\<close>

datatype column = Name string | Position nat

text \<open>
  \<open>pd.read_csv(path, header=0 if header else None, dtype=str, usecols=...)\<close> on the lines
  of the file, each the list of its cells (an empty cell reads as NaN): the columns of
  the table with their labels.  The columns are selected by name or by position, never
  by both; with a header the labels of the table are the names of the first line, without
  one they are the positions.
\<close>

definition read_csv ::
  "string option list list \<Rightarrow> bool \<Rightarrow> column list \<Rightarrow> error + (column \<times> string option list) list" where
  "read_csv file header usecols =
     (case file of
        [] \<Rightarrow> Inl (ValueError ''No columns to parse from file'')
      | first_line # _ \<Rightarrow>
          let labels = (if header
                        then map (\<lambda>cell. Name (case cell of Some n \<Rightarrow> n | None \<Rightarrow> ''Unnamed''))
                               first_line
                        else map Position [0..<length first_line]);
              rows = (if header then tl file else file);
              by_name = filter (\<lambda>c. case c of Name _ \<Rightarrow> True | Position _ \<Rightarrow> False) usecols;
              by_position = filter (\<lambda>c. case c of Name _ \<Rightarrow> False | Position _ \<Rightarrow> True) usecols;
              wanted = (\<lambda>(k, label). Position k \<in> set by_position \<or> label \<in> set by_name)
          in if by_name \<noteq> [] \<and> by_position \<noteq> []
             then Inl (ValueError ''usecols must either be all strings or all integers'')
             else if \<not> list_all (\<lambda>c. c \<in> set labels) by_name
               \<or> \<not> list_all (\<lambda>c. c \<in> set (map Position [0..<length first_line])) by_position
             then Inl (ValueError ''Usecols do not match columns'')
             else Inr (map (\<lambda>(k, label). (label, map (\<lambda>row. row ! k) rows))
                         (filter wanted (enumerate 0 labels))))"

definition is_str :: "column \<Rightarrow> bool" where
  \<comment> \<open>\<open>isinstance(column, str)\<close>\<close>
  "is_str c = (case c of Name _ \<Rightarrow> True | Position _ \<Rightarrow> False)"

text \<open>
  \<open>df[column]\<close>; without a column of that label it raises KeyError, whose argument is the
  label that was asked for: a name, or a position, given here by its decimal digits.
\<close>

fun str_nat :: "nat \<Rightarrow> string" where
  "str_nat n =
     (if n < 10 then [''0123456789'' ! n]
      else str_nat (n div 10) @ [''0123456789'' ! (n mod 10)])"

definition df_column ::
  "(column \<times> string option list) list \<Rightarrow> column \<Rightarrow> error + string option list" where
  "df_column df c =
     (case map_of df c of
        None \<Rightarrow> Inl (KeyError (case c of Name name \<Rightarrow> name | Position k \<Rightarrow> str_nat k))
      | Some vs \<Rightarrow> Inr vs)"

text \<open>
  \<open>srs.str.fullmatch(pat)\<close> matches a regular expression; the engine is Python's, and
  the corruptor takes it as \<open>fullmatch\<close> (the pattern first).
\<close>

type_synonym regex_match = "string \<Rightarrow> string \<Rightarrow> bool"

text \<open>\<open>np.setdiff1d(values, value)\<close>: the sorted distinct values other than value.\<close>

definition setdiff1d :: "string list \<Rightarrow> string \<Rightarrow> string list" where
  "setdiff1d vs v = filter (\<lambda>x. x \<noteq> v) (sort (remdups vs))"

fun categorical_updates ::
  "regex_match \<Rightarrow> nat \<Rightarrow> string list \<Rightarrow> string list \<Rightarrow> string list \<Rightarrow> string option list
     \<Rightarrow> store \<Rightarrow> (string option list) result" where
  "categorical_updates fullmatch r unique_values srs_in [] srs_in_update st =
     Return srs_in_update st"
| "categorical_updates fullmatch r unique_values srs_in (unique_val # vals) srs_in_update st =
     (let unique_vals_without_current = setdiff1d unique_values unique_val;
          srs_in_matching_val = map (fullmatch unique_val) srs_in;
          unique_val_total = length (filter (\<lambda>b. b) srs_in_matching_val)
      in if unique_val_total = 0
         then categorical_updates fullmatch r unique_values srs_in vals srs_in_update st
         else case rng_choice r unique_vals_without_current unique_val_total st of
                Raise e st' \<Rightarrow> Raise e st'
              | Return new_unique_vals st' \<Rightarrow>
                  categorical_updates fullmatch r unique_values srs_in vals
                    (put_mask srs_in_matching_val srs_in_update (map Some new_unique_vals)) st')"

definition categorical_corrupt_list :: "regex_match \<Rightarrow> string list \<Rightarrow> nat \<Rightarrow> corruptor" where
  "categorical_corrupt_list fullmatch unique_values r st srs_in =
     (case categorical_updates fullmatch r unique_values (series st srs_in) unique_values
             (replicate (length (series st srs_in)) None) st of
        Raise e st1 \<Rightarrow> Raise e st1
      | Return srs_in_update st1 \<Rightarrow>
          (case series_copy st1 srs_in of
             (srs_out, st2) \<Rightarrow>
               (case update_in_place srs_out (enumerate 0 srs_in_update) st2 of
                  Raise e st3 \<Rightarrow> Raise e st3
                | Return _ st3 \<Rightarrow> Return srs_out st3)))"

definition with_categorical_values ::
  "regex_match \<Rightarrow> string option list list \<Rightarrow> bool \<Rightarrow> column \<Rightarrow> nat \<Rightarrow> error + corruptor" where
  "with_categorical_values fullmatch csv_file header value_column r =
     (if header \<and> \<not> is_str value_column
      then Inl (ValueError ''header present, but value column must be a string'')
      else case read_csv csv_file header [value_column] of
             Inl e \<Rightarrow> Inl e
           | Inr df \<Rightarrow>
               (case df_column df value_column of
                  Inl e \<Rightarrow> Inl e
                | Inr vs \<Rightarrow>
                    Inr (categorical_corrupt_list fullmatch
                           (unique (map the (filter (\<lambda>v. v \<noteq> None) vs))) r)))"


subsection \<open>with\_phonetic\_replacement\_table\<close>

record phonetic_replacement_rule =
  pattern :: string
  replacement :: string
  flags :: string

text \<open>\<open>"".join(sorted("^$_"))\<close>\<close>

definition all_flags :: string where
  "all_flags = ''$^_''"

definition validate_flags :: "string option \<Rightarrow> error + string" where
  "validate_flags flags_str =
     (case flags_str of
        None \<Rightarrow> Inr all_flags
      | Some fs \<Rightarrow>
          if fs = [] then Inr all_flags
          else (case find (\<lambda>c. c \<notin> set all_flags) fs of
                  Some c \<Rightarrow> Inl (ValueError (''unknown flag: '' @ [c]))
                | None \<Rightarrow> Inr fs))"

text \<open>
  The rows of the rule table, as read from the CSV file: source, target, and the cell of
  the flags column, which may be empty (NaN).
\<close>

fun parse_rules ::
  "(string \<times> string \<times> string option) list \<Rightarrow> error + phonetic_replacement_rule list" where
  "parse_rules [] = Inr []"
| "parse_rules ((source, target, flags_cell) # rows) =
     (case validate_flags flags_cell of
        Inl e \<Rightarrow> Inl e
      | Inr fs \<Rightarrow>
          (case parse_rules rows of
             Inl e \<Rightarrow> Inl e
           | Inr rules \<Rightarrow> Inr (\<lparr>pattern = source, replacement = target, flags = fs\<rparr> # rules)))"

definition startswith :: "string \<Rightarrow> string \<Rightarrow> bool" where
  "startswith s pat = (take (length pat) s = pat)"

definition endswith :: "string \<Rightarrow> string \<Rightarrow> bool" where
  "endswith s pat = (length pat \<le> length s \<and> drop (length s - length pat) s = pat)"

text \<open>\<open>s.find(pat)\<close>: where pat first occurs in s, or -1.\<close>

fun str_find :: "string \<Rightarrow> string \<Rightarrow> int" where
  "str_find [] pat = (if pat = [] then 0 else - 1)"
| "str_find (c # cs) pat =
     (if startswith (c # cs) pat then 0
      else let k = str_find cs pat in if k < 0 then - 1 else k + 1)"

text \<open>The flags that one rule gives one string (the first loop, on one row).\<close>

definition str_flags :: "phonetic_replacement_rule \<Rightarrow> string \<Rightarrow> string" where
  "str_flags rule s =
     (let pattern_idx = str_find s (pattern rule);
          str_len = int (length s);
          pattern_len = int (length (pattern rule))
      in (if CHR ''^'' \<in> set (flags rule) \<and> pattern_idx = 0 then ''^'' else [])
       @ (if CHR ''$'' \<in> set (flags rule) \<and> pattern_idx + pattern_len = str_len then ''$'' else [])
       @ (if CHR ''_'' \<in> set (flags rule) \<and> 0 < pattern_idx \<and> pattern_idx + pattern_len < str_len
          then ''_'' else []))"

text \<open>
  The first loop: the flags of every row under every rule, and for every row the number
  of rules with a flag for it.
\<close>

definition count_rules ::
  "phonetic_replacement_rule list \<Rightarrow> string list
     \<Rightarrow> (phonetic_replacement_rule \<rightharpoonup> string list) \<times> rat list" where
  "count_rules rules srs_str_out =
     fold (\<lambda>rule (rule_to_flag_dict, srs_str_sub_prob).
             let srs_str_flags = map (str_flags rule) srs_str_out
             in (rule_to_flag_dict(rule \<mapsto> srs_str_flags),
                 map2 (\<lambda>f p. if f \<noteq> [] then p + 1 else p) srs_str_flags srs_str_sub_prob))
       rules (Map.empty, replicate (length srs_str_out) 0)"

text \<open>
  \<open>srs.str.replace(pat, repl, n=1, regex=True)\<close> on one string: the regular-expression
  engine is Python's, and the corruptor takes it as \<open>re_sub\<close> (pattern, replacement,
  string).
\<close>

type_synonym regex_sub = "string \<Rightarrow> string \<Rightarrow> string \<Rightarrow> string"

definition flag_sub :: "regex_sub \<Rightarrow> phonetic_replacement_rule \<Rightarrow> char \<Rightarrow> string \<Rightarrow> string" where
  "flag_sub re_sub rule flag s =
     (if flag = CHR ''^'' then re_sub (''^'' @ pattern rule) (replacement rule) s
      else if flag = CHR ''$'' then re_sub (pattern rule @ ''$'') (replacement rule) s
      else re_sub (''^(.+)'' @ pattern rule @ ''(.+)$'')
             ([CHR 0x5C, CHR ''1''] @ replacement rule @ [CHR 0x5C, CHR ''2'']) s)"

definition flag_mask :: "char \<Rightarrow> string \<Rightarrow> string \<Rightarrow> bool" where
  "flag_mask flag pat s =
     (if flag = CHR ''^'' then startswith s pat
      else if flag = CHR ''$'' then endswith s pat
      else \<not> startswith s pat \<and> \<not> endswith s pat)"

text \<open>\<open>srs[msk] = srs[msk].str.replace(...)\<close>, in place.\<close>

definition series_map_masked :: "nat \<Rightarrow> bool list \<Rightarrow> (string \<Rightarrow> string) \<Rightarrow> store \<Rightarrow> store" where
  "series_map_masked a msk f st =
     st\<lparr>series := (series st)(a := map2 (\<lambda>b s. if b then f s else s) msk (series st a))\<rparr>"

text \<open>The loop over the shuffled flags of one rule.\<close>

fun apply_flags ::
  "regex_sub \<Rightarrow> phonetic_replacement_rule \<Rightarrow> bool list \<Rightarrow> string \<Rightarrow> nat \<Rightarrow> bool list \<Rightarrow> store
     \<Rightarrow> (bool list) result" where
  "apply_flags re_sub rule mask_candidate_rows [] srs_str_out mask_modified_rows st =
     Return mask_modified_rows st"
| "apply_flags re_sub rule mask_candidate_rows (flag # arr_rand_flags) srs_str_out
     mask_modified_rows st =
     (if flag \<noteq> CHR ''^'' \<and> flag \<noteq> CHR ''$'' \<and> flag \<noteq> CHR ''_''
      then Raise (ValueError (''invalid state: unknown flag '' @ [flag])) st
      else
        let mask_current_flag = map (flag_mask flag (pattern rule)) (series st srs_str_out);
            mask_current_candidate_rows =
              map (\<lambda>(c, f, m). c \<and> f \<and> \<not> m)
                (zip mask_candidate_rows (zip mask_current_flag mask_modified_rows))
        in if length (filter (\<lambda>b. b) mask_current_candidate_rows) = 0
           then apply_flags re_sub rule mask_candidate_rows arr_rand_flags srs_str_out
                  mask_modified_rows st
           else apply_flags re_sub rule mask_candidate_rows arr_rand_flags srs_str_out
                  (map2 (\<or>) mask_modified_rows mask_current_candidate_rows)
                  (series_map_masked srs_str_out mask_current_candidate_rows
                     (flag_sub re_sub rule flag) st))"

text \<open>
  \<open>rng.shuffle(xs)\<close>, in place on a list: from the last position down to the second,
  each is swapped with a position drawn at or before it.
\<close>

definition swap :: "nat \<Rightarrow> nat \<Rightarrow> 'a list \<Rightarrow> 'a list" where
  "swap i j xs = xs[i := xs ! j, j := xs ! i]"

definition rng_shuffle :: "nat \<Rightarrow> 'a list \<Rightarrow> store \<Rightarrow> 'a list \<times> store" where
  "rng_shuffle r xs st =
     (case rng_random r (length xs - 1) st of
        (us, st') \<Rightarrow>
          (fold (\<lambda>(i, u). swap i (floor_index (i + 1) u)) (zip (rev [1..<length xs]) us) xs,
           st'))"

text \<open>The second loop, over the rules in the order of the table.\<close>

fun apply_rules ::
  "regex_sub \<Rightarrow> nat \<Rightarrow> (phonetic_replacement_rule \<rightharpoonup> string list) \<Rightarrow> rat list
     \<Rightarrow> phonetic_replacement_rule list \<Rightarrow> nat \<Rightarrow> bool list \<Rightarrow> store \<Rightarrow> (bool list) result" where
  "apply_rules re_sub r rule_to_flag_dict srs_str_sub_prob [] srs_str_out mask_modified_rows st =
     Return mask_modified_rows st"
| "apply_rules re_sub r rule_to_flag_dict srs_str_sub_prob (rule # rules) srs_str_out
     mask_modified_rows st =
     (case rng_random r (length srs_str_sub_prob) st of
        (arr_rand_vals, st1) \<Rightarrow>
          (case rule_to_flag_dict rule of
             None \<Rightarrow> Raise (KeyError ''rule'') st1
           | Some srs_str_flags \<Rightarrow>
               let mask_candidate_rows =
                     map (\<lambda>(u, p, f). u < p \<and> f \<noteq> [])
                       (zip arr_rand_vals (zip srs_str_sub_prob srs_str_flags))
               in (case rng_shuffle r (flags rule) st1 of
                     (arr_rand_flags, st2) \<Rightarrow>
                       (case apply_flags re_sub rule mask_candidate_rows arr_rand_flags
                               srs_str_out mask_modified_rows st2 of
                          Raise e st3 \<Rightarrow> Raise e st3
                        | Return modified st3 \<Rightarrow>
                            apply_rules re_sub r rule_to_flag_dict srs_str_sub_prob rules
                              srs_str_out modified st3))))"

definition phonetic_corrupt ::
  "regex_sub \<Rightarrow> phonetic_replacement_rule list \<Rightarrow> nat \<Rightarrow> corruptor" where
  "phonetic_corrupt re_sub phonetic_replacement_rules r st srs_str_in =
     (case series_copy st srs_str_in of
        (srs_str_out, st1) \<Rightarrow>
          (case count_rules phonetic_replacement_rules (series st1 srs_str_out) of
             (rule_to_flag_dict, counts) \<Rightarrow>
               let srs_str_sub_prob = map (\<lambda>p. if p \<noteq> 0 then 1 / p else p) counts
               in (case apply_rules re_sub r rule_to_flag_dict srs_str_sub_prob
                           phonetic_replacement_rules srs_str_out
                           (replicate (length (series st1 srs_str_out)) False) st1 of
                     Raise e st2 \<Rightarrow> Raise e st2
                   | Return modified st2 \<Rightarrow> Return srs_str_out st2)))"

definition with_phonetic_replacement_table ::
  "regex_sub \<Rightarrow> (string \<times> string \<times> string option) list \<Rightarrow> nat \<Rightarrow> error + corruptor" where
  "with_phonetic_replacement_table re_sub df r =
     (case parse_rules df of
        Inl e \<Rightarrow> Inl e
      | Inr phonetic_replacement_rules \<Rightarrow> Inr (phonetic_corrupt re_sub phonetic_replacement_rules r))"


subsection \<open>with\_replacement\_table\<close>

text \<open>
  \<open>srs.str.contains(source)\<close> searches a regular expression and
  \<open>srs.str.replace(source, target, n=1)\<close> replaces its first match; both are the
  library's, and the corruptor takes them as \<open>contains\<close> (the pattern first) and
  \<open>replace_first\<close> (pattern, replacement, string).  A source that is NaN is no pattern,
  and a target that is NaN is no replacement: the library raises TypeError.
\<close>

fun count_sources ::
  "regex_match \<Rightarrow> string option list \<Rightarrow> string list \<Rightarrow> rat list \<Rightarrow> error + rat list" where
  "count_sources contains [] srs_str_out srs_str_sub_prob = Inr srs_str_sub_prob"
| "count_sources contains (None # sources) srs_str_out srs_str_sub_prob =
     Inl (TypeError ''first argument must be string or compiled pattern'')"
| "count_sources contains (Some source # sources) srs_str_out srs_str_sub_prob =
     count_sources contains sources srs_str_out
       (map2 (\<lambda>s p. if contains source s then p + 1 else p) srs_str_out srs_str_sub_prob)"

text \<open>
  The second loop: \<open>df_replacement\<close> is kept as its two columns.  \<open>df\<close> is the table read
  from the file, as rows (source, target).  The targets of a source are a Python list
  (\<open>tolist()\<close>), of which \<open>rng.choice\<close> makes an array.
\<close>

fun select_replacements ::
  "regex_match \<Rightarrow> nat \<Rightarrow> (string option \<times> string option) list \<Rightarrow> rat list \<Rightarrow> string list
     \<Rightarrow> string option list \<Rightarrow> string option list \<Rightarrow> string option list \<Rightarrow> store
     \<Rightarrow> (string option list \<times> string option list) result" where
  "select_replacements contains r df srs_str_sub_prob srs_str_out [] repl_source repl_target st =
     Return (repl_source, repl_target) st"
| "select_replacements contains r df srs_str_sub_prob srs_str_out (None # sources)
     repl_source repl_target st =
     Raise (TypeError ''first argument must be string or compiled pattern'') st"
| "select_replacements contains r df srs_str_sub_prob srs_str_out (Some source # sources)
     repl_source repl_target st =
     (let srs_str_contains_source = map (contains source) srs_str_out
      in case rng_random r (length srs_str_out) st of
           (arr_rand_vals, st1) \<Rightarrow>
             let mask_strings_to_replace =
                   map (\<lambda>(c, u, p, src). c \<and> u < p \<and> src = None)
                     (zip srs_str_contains_source
                        (zip arr_rand_vals (zip srs_str_sub_prob repl_source)));
                 replacement_count = length (filter (\<lambda>b. b) mask_strings_to_replace)
             in if replacement_count = 0
                then select_replacements contains r df srs_str_sub_prob srs_str_out sources
                       repl_source repl_target st1
                else
                  let repl_source' =
                        map2 (\<lambda>b src. if b then Some source else src)
                          mask_strings_to_replace repl_source;
                      replacement_options = map snd (filter (\<lambda>(s, t). s = Some source) df)
                  in if length replacement_options = 1
                     then select_replacements contains r df srs_str_sub_prob srs_str_out sources
                            repl_source'
                            (map2 (\<lambda>b tgt. if b then hd replacement_options else tgt)
                               mask_strings_to_replace repl_target)
                            st1
                     else (case rng_choice r (np_array replacement_options) replacement_count
                                   st1 of
                             Raise e st2 \<Rightarrow> Raise e st2
                           | Return targets st2 \<Rightarrow>
                               select_replacements contains r df srs_str_sub_prob srs_str_out
                                 sources repl_source'
                                 (put_mask mask_strings_to_replace repl_target targets) st2))"

text \<open>
  The third loop, over the distinct sources that were selected and, for each, over the
  distinct targets drawn for it.
\<close>

definition selected_pairs ::
  "string option list \<Rightarrow> string option list \<Rightarrow> (string \<times> string option) list" where
  "selected_pairs repl_source repl_target =
     concat (map (\<lambda>source.
                    map (\<lambda>target. (source, target))
                      (unique (map snd (filter (\<lambda>(s, t). s = Some source)
                                          (zip repl_source repl_target)))))
               (map the (filter (\<lambda>s. s \<noteq> None) (unique repl_source))))"

fun apply_replacements ::
  "(string \<Rightarrow> string \<Rightarrow> string \<Rightarrow> string) \<Rightarrow> string option list \<Rightarrow> string option list
     \<Rightarrow> (string \<times> string option) list \<Rightarrow> nat \<Rightarrow> store \<Rightarrow> nat result" where
  "apply_replacements replace_first repl_source repl_target [] srs_str_out st =
     Return srs_str_out st"
| "apply_replacements replace_first repl_source repl_target ((source, None) # pairs)
     srs_str_out st =
     Raise (TypeError ''repl must be a string or callable'') st"
| "apply_replacements replace_first repl_source repl_target ((source, Some target) # pairs)
     srs_str_out st =
     apply_replacements replace_first repl_source repl_target pairs srs_str_out
       (series_map_masked srs_str_out
          (map (\<lambda>(s, t). s = Some source \<and> t = Some target) (zip repl_source repl_target))
          (replace_first source target) st)"

definition replacement_corrupt ::
  "regex_match \<Rightarrow> (string \<Rightarrow> string \<Rightarrow> string \<Rightarrow> string)
     \<Rightarrow> (string option \<times> string option) list \<Rightarrow> nat \<Rightarrow> corruptor" where
  "replacement_corrupt contains replace_first df r st srs_str_in =
     (case series_copy st srs_str_in of
        (srs_str_out, st1) \<Rightarrow>
          let str_count = length (series st1 srs_str_out);
              srs_unique_source_values = unique (map fst df)
          in (case count_sources contains srs_unique_source_values (series st1 srs_str_out)
                      (replicate str_count 0) of
                Inl e \<Rightarrow> Raise e st1
              | Inr counts \<Rightarrow>
                  let srs_str_sub_prob = map (\<lambda>p. if p \<noteq> 0 then 1 / p else p) counts
                  in (case select_replacements contains r df srs_str_sub_prob
                              (series st1 srs_str_out) srs_unique_source_values
                              (replicate str_count None) (replicate str_count None) st1 of
                        Raise e st2 \<Rightarrow> Raise e st2
                      | Return (repl_source, repl_target) st2 \<Rightarrow>
                          apply_replacements replace_first repl_source repl_target
                            (selected_pairs repl_source repl_target) srs_str_out st2)))"

definition with_replacement_table ::
  "regex_match \<Rightarrow> (string \<Rightarrow> string \<Rightarrow> string \<Rightarrow> string) \<Rightarrow> string option list list \<Rightarrow> bool
     \<Rightarrow> column \<Rightarrow> column \<Rightarrow> nat \<Rightarrow> error + corruptor" where
  "with_replacement_table contains replace_first csv_file header source_column target_column r =
     (if header \<and> (is_str source_column \<or> is_str target_column)
      then Inl (ValueError ''header present, but source and target columns must be strings'')
      else case read_csv csv_file header [source_column, target_column] of
             Inl e \<Rightarrow> Inl e
           | Inr df \<Rightarrow>
               (case df_column df source_column of
                  Inl e \<Rightarrow> Inl e
                | Inr sources \<Rightarrow>
                    (case df_column df target_column of
                       Inl e \<Rightarrow> Inl e
                     | Inr targets \<Rightarrow>
                         Inr (replacement_corrupt contains replace_first (zip sources targets) r))))"


subsection \<open>Weighted choice and spawning\<close>

text \<open>
  \<open>rng.choice(a, p=p, size=n)\<close>: numpy refuses weights that are negative or whose sum is
  further from 1 than the square root of the machine epsilon (2^-26); it then looks each
  uniform value up in the normalised cumulative weights (\<open>searchsorted\<close>, side right).
\<close>

definition cumsum :: "rat list \<Rightarrow> rat list" where
  "cumsum p = map (\<lambda>k. sum_list (take (Suc k) p)) [0..<length p]"

definition searchsorted_right :: "rat list \<Rightarrow> rat \<Rightarrow> nat" where
  "searchsorted_right cdf u = length (takeWhile (\<lambda>c. c \<le> u) cdf)"

definition rng_choice_p :: "nat \<Rightarrow> 'a list \<Rightarrow> rat list \<Rightarrow> nat \<Rightarrow> store \<Rightarrow> ('a list) result" where
  "rng_choice_p r a p n st =
     (if length p \<noteq> length a then Raise (ValueError ''a and p must have same size'') st
      else if list_ex (\<lambda>x. x < 0) p
      then Raise (ValueError ''probabilities are not non-negative'') st
      else if 1 / 2 ^ 26 < \<bar>sum_list p - 1\<bar>
      then Raise (ValueError ''probabilities do not sum to 1'') st
      else case rng_random r n st of
             (us, st') \<Rightarrow>
               Return (map (\<lambda>u. a ! searchsorted_right (map (\<lambda>c. c / sum_list p) (cumsum p)) u) us)
                 st')"

text \<open>
  \<open>rng.spawn(n)\<close>: n new generators, seeded with the parent's spawn key extended by the
  next child numbers; the parent counts the children it has spawned.
\<close>

definition rng_spawn :: "nat \<Rightarrow> nat \<Rightarrow> store \<Rightarrow> nat list \<times> store" where
  "rng_spawn r n st =
     (let g = rngs st r;
          children =
            map (\<lambda>i. g\<lparr>spawn_key := spawn_key g @ [n_children_spawned g + i], pos := 0,
                        n_children_spawned := 0\<rparr>) [0..<n];
          addrs = [n_rngs st ..< n_rngs st + n]
      in (addrs,
          st\<lparr>rngs := fold (\<lambda>(a, c) f. f(a := c)) (zip addrs children)
                         ((rngs st)(r := g\<lparr>n_children_spawned := n_children_spawned g + n\<rparr>)),
              n_rngs := n_rngs st + n\<rparr>))"

subsection \<open>with\_edit\<close>

datatype edit_op = Ins | Del | Sub | Trs

definition check_probability_in_bounds :: "rat \<Rightarrow> bool" where
  \<comment> \<open>whether \<open>_check_probability_in_bounds\<close> returns (it raises otherwise)\<close>
  "check_probability_in_bounds p = (\<not> (p < 0 \<or> 1 < p))"

text \<open>
  \<open>srs[msk]\<close>, on the index and the values of a series: a new series object of the
  selected rows, each with its label.
\<close>

definition series_select ::
  "(nat \<Rightarrow> nat) \<Rightarrow> bool list \<Rightarrow> string list \<Rightarrow> store \<Rightarrow> nat \<times> store" where
  "series_select idx msk vals st =
     series_new (\<lambda>k. idx (map fst (filter snd (enumerate 0 msk)) ! k))
       (map snd (filter fst (zip msk vals))) st"

text \<open>
  \<open>srs_out[msk] = corr(srs_out[msk])\<close>, done when the mask selects a row: the selected
  rows are a new series, and the rows of the result go back in their places.
\<close>

definition corrupt_masked :: "corruptor \<Rightarrow> bool list \<Rightarrow> nat \<Rightarrow> store \<Rightarrow> unit result" where
  "corrupt_masked corr msk srs_out st =
     (if length (filter (\<lambda>b. b) msk) = 0 then Return () st
      else case series_select (index st srs_out) msk (series st srs_out) st of
             (selected, st1) \<Rightarrow>
               (case corr st1 selected of
                  Raise e st2 \<Rightarrow> Raise e st2
                | Return res st2 \<Rightarrow>
                    Return ()
                      (st2\<lparr>series := (series st2)
                             (srs_out := put_mask msk (series st2 srs_out) (series st2 res))\<rparr>)))"

definition edit_corrupt_list ::
  "rat list \<Rightarrow> nat \<Rightarrow> corruptor \<Rightarrow> corruptor \<Rightarrow> corruptor \<Rightarrow> corruptor \<Rightarrow> corruptor" where
  "edit_corrupt_list edit_ops_prob r corr_ins corr_del corr_sub corr_trs st srs_in =
     (case series_copy st srs_in of
        (srs_out, st1) \<Rightarrow>
          (case rng_choice_p r [Ins, Del, Sub, Trs] edit_ops_prob
                  (length (series st1 srs_in)) st1 of
             Raise e st2 \<Rightarrow> Raise e st2
           | Return str_in_edit_ops st2 \<Rightarrow>
               (case corrupt_masked corr_ins (map (\<lambda>op. op = Ins) str_in_edit_ops) srs_out st2 of
                  Raise e st3 \<Rightarrow> Raise e st3
                | Return _ st3 \<Rightarrow>
               (case corrupt_masked corr_del (map (\<lambda>op. op = Del) str_in_edit_ops) srs_out st3 of
                  Raise e st4 \<Rightarrow> Raise e st4
                | Return _ st4 \<Rightarrow>
               (case corrupt_masked corr_sub (map (\<lambda>op. op = Sub) str_in_edit_ops) srs_out st4 of
                  Raise e st5 \<Rightarrow> Raise e st5
                | Return _ st5 \<Rightarrow>
               (case corrupt_masked corr_trs (map (\<lambda>op. op = Trs) str_in_edit_ops) srs_out st5 of
                  Raise e st6 \<Rightarrow> Raise e st6
                | Return _ st6 \<Rightarrow> Return srs_out st6))))))"

definition with_edit ::
  "rat \<Rightarrow> rat \<Rightarrow> rat \<Rightarrow> rat \<Rightarrow> string \<Rightarrow> nat \<Rightarrow> store \<Rightarrow> corruptor result" where
  "with_edit p_insert p_delete p_substitute p_transpose charset r st =
     (let edit_ops_prob = [p_insert, p_delete, p_substitute, p_transpose]
      in if \<not> list_all check_probability_in_bounds edit_ops_prob
         then Raise (ValueError ''probability is out of range, must be between 0 and 1'') st
         else case rng_choice_p r [Ins, Del, Sub, Trs] edit_ops_prob 1 st of
                Raise e st1 \<Rightarrow> Raise (ValueError ''probabilities must sum up to 1.0'') st1
              | Return _ st1 \<Rightarrow>
                  (case rng_spawn r 4 st1 of
                     (children, st2) \<Rightarrow>
                       Return (edit_corrupt_list edit_ops_prob r
                                 (with_insert charset (children ! 0))
                                 (with_delete (children ! 1))
                                 (with_substitute charset (children ! 2))
                                 (with_transpose (children ! 3)))
                         st2))"

subsection \<open>corrupt\_dataframe\<close>

text \<open>
  A table is the list of its columns, each with its name, under the default index: the
  label of a row is its position.  The copy that is returned has the columns of the input.
  A column is given one corruptor, a list of corruptors, or a list of weighted corruptors.
\<close>

type_synonym dataframe = "(string \<times> string list) list"

definition quoted :: "string \<Rightarrow> string" where
  \<comment> \<open>a name between backquotes, as the messages give it\<close>
  "quoted name = [CHR 0x60] @ name @ [CHR 0x60]"

fun join_comma :: "string list \<Rightarrow> string" where
  "join_comma [] = []"
| "join_comma [name] = name"
| "join_comma (name # names) = name @ '','' @ join_comma names"

datatype corruptor_spec =
  Single corruptor | Corruptors "corruptor list" | Weighted "(rat \<times> corruptor) list"

definition weighted_spec :: "corruptor_spec \<Rightarrow> error + (rat \<times> corruptor) list" where
  "weighted_spec spec =
     (case spec of
        Single c \<Rightarrow> Inr [(1, c)]
      | Corruptors cs \<Rightarrow>
          if cs = [] then Inl (IndexError ''list index out of range'')
          else Inr (map (\<lambda>c. (1 / of_nat (length cs), c)) cs)
      | Weighted ws \<Rightarrow>
          if ws = [] then Inl (IndexError ''list index out of range'') else Inr ws)"

text \<open>
  The loop over the corruptors of one column: each is called on the rows drawn for it
  (a new series of the input column), and its result is written to those rows of the
  output column.
\<close>

fun dispatch_rows ::
  "corruptor list \<Rightarrow> nat \<Rightarrow> nat list \<Rightarrow> string list \<Rightarrow> string list \<Rightarrow> store
     \<Rightarrow> (string list) result" where
  "dispatch_rows [] i srs_corruptor_idx srs_column out_column st = Return out_column st"
| "dispatch_rows (corruptor # corruptor_funcs) i srs_corruptor_idx srs_column out_column st =
     (let mask_this_corruptor = map (\<lambda>k. k = i) srs_corruptor_idx
      in case series_select (\<lambda>p. p) mask_this_corruptor srs_column st of
           (selected, st1) \<Rightarrow>
             (case corruptor st1 selected of
                Raise e st2 \<Rightarrow> Raise e st2
              | Return res st2 \<Rightarrow>
                  dispatch_rows corruptor_funcs (Suc i) srs_corruptor_idx srs_column
                    (put_mask mask_this_corruptor out_column (series st2 res)) st2))"

fun corrupt_columns ::
  "dataframe \<Rightarrow> (string \<times> corruptor_spec) list \<Rightarrow> nat \<Rightarrow> dataframe \<Rightarrow> store \<Rightarrow> dataframe result" where
  "corrupt_columns df_in [] r df_out st = Return df_out st"
| "corrupt_columns df_in ((column, corruptor_spec) # specs) r df_out st =
     (case (map_of df_in column, map_of df_out column) of
        (Some srs_column, Some out_column) \<Rightarrow>
          (case weighted_spec corruptor_spec of
             Inl e \<Rightarrow> Raise e st
           | Inr weighted \<Rightarrow>
               let p_values = map fst weighted;
                   corruptor_funcs = map snd weighted;
                   arr_corruptor_idx = [0..<length corruptor_funcs]
               in (case rng_choice_p r arr_corruptor_idx p_values 1 st of
                     Raise e st1 \<Rightarrow>
                       Raise (ValueError (''probabilities for column '' @ quoted column
                                            @ '' must sum up to 1.0'')) st1
                   | Return _ st1 \<Rightarrow>
                       (case rng_choice_p r arr_corruptor_idx p_values (length srs_column) st1 of
                          Raise e st2 \<Rightarrow> Raise e st2
                        | Return arr_corruptor_per_row st2 \<Rightarrow>
                            (case dispatch_rows corruptor_funcs 0 arr_corruptor_per_row srs_column
                                    out_column st2 of
                               Raise e st3 \<Rightarrow> Raise e st3
                             | Return out_column' st3 \<Rightarrow>
                                 corrupt_columns df_in specs r
                                   (map (\<lambda>(name, vals).
                                           if name = column then (name, out_column')
                                           else (name, vals)) df_out)
                                   st3))))
      | _ \<Rightarrow>
          Raise (ValueError (''column '' @ quoted column @ '' does not exist, must be one of ''
                               @ quoted (join_comma (map fst df_in)))) st)"

definition corrupt_dataframe ::
  "dataframe \<Rightarrow> (string \<times> corruptor_spec) list \<Rightarrow> nat \<Rightarrow> store \<Rightarrow> dataframe result" where
  "corrupt_dataframe df_in column_to_corruptor_dict r st =
     corrupt_columns df_in column_to_corruptor_dict r df_in st"

subsection \<open>What a call leaves untouched\<close>

text \<open>
  The store a call ends in, whether it returns or raises; and the frame of a call: every
  series that existed when the corruptor was called (its address is below \<open>n_series\<close>, the
  input among them) holds the same values afterwards.
\<close>

definition store_of :: "'a result \<Rightarrow> store" where
  "store_of res = (case res of Return x st \<Rightarrow> st | Raise e st \<Rightarrow> st)"

text \<open>What a call returns, and the error it raises.\<close>

definition returned :: "'a result \<Rightarrow> 'a option" where
  "returned res = (case res of Return x st \<Rightarrow> Some x | Raise e st \<Rightarrow> None)"

definition raised :: "'a result \<Rightarrow> error option" where
  "raised res = (case res of Return x st \<Rightarrow> None | Raise e st \<Rightarrow> Some e)"

definition unchanged_below :: "nat \<Rightarrow> store \<Rightarrow> store \<Rightarrow> bool" where
  "unchanged_below n st st' \<longleftrightarrow>
     n_series st \<le> n_series st' \<and> (\<forall>b<n. series st' b = series st b)"

definition keeps_series :: "corruptor \<Rightarrow> bool" where
  "keeps_series corrupt \<longleftrightarrow>
     (\<forall>st srs_in. srs_in < n_series st \<longrightarrow>
        unchanged_below (n_series st) st (store_of (corrupt st srs_in)))"
subsection \<open>Example inputs\<close>

text \<open>
  A generator whose raw integers are all 0, and a store whose series all hold the same
  values under the default index, with one series and one generator allocated.
\<close>

definition example_rng :: rng where
  "example_rng = \<lparr>entropy = (\<lambda>key k. 0), spawn_key = [], pos = 0, n_children_spawned = 0\<rparr>"

definition example_store :: "string list \<Rightarrow> store" where
  "example_store xs =
     \<lparr>series = (\<lambda>a. xs), index = (\<lambda>a p. p), n_series = 1, rngs = (\<lambda>r. example_rng), n_rngs = 1\<rparr>"

text \<open>The same store with every row of every series under the one label 0.\<close>

definition example_store_one_label :: "string list \<Rightarrow> store" where
  "example_store_one_label xs = (example_store xs)\<lparr>index := (\<lambda>a p. 0)\<rparr>"

text \<open>
  The regular-expression engine on the one pattern of the phonetic example: \<open>^ph\<close>
  matches the prefix \<open>ph\<close>, and the first match is replaced.
\<close>

definition example_re_sub :: regex_sub where
  "example_re_sub pat repl s = (if pat = ''^ph'' \<and> take 2 s = ''ph'' then repl @ drop 2 s else s)"

text \<open>
  Python's \<open>re.fullmatch\<close> on the patterns whose only special character is the dot: a dot
  matches any character but a line feed, every other character matches itself.
\<close>

fun dot_fullmatch :: regex_match where
  "dot_fullmatch [] [] = True"
| "dot_fullmatch (p # ps) (c # cs) =
     ((if p = CHR ''.'' then c \<noteq> CHR 0x0A else p = c) \<and> dot_fullmatch ps cs)"
| "dot_fullmatch ps cs = False"

section \<open>Properties\<close>

subsection \<open>The generator and the store\<close>

lemma uniform_range: "0 \<le> uniform g k \<and> uniform g k < 1"
  by (simp add: uniform_def)

lemma floor_index_less: "0 \<le> u \<Longrightarrow> u < 1 \<Longrightarrow> 0 < l \<Longrightarrow> floor_index l u < l"
proof -
  assume a: "0 \<le> u" "u < 1" "0 < l"
  have "of_nat l * u < (of_nat l :: rat)" using a by simp
  then have "\<lfloor>of_nat l * u\<rfloor> < int l" by (simp add: floor_less_iff)
  moreover have "0 \<le> \<lfloor>of_nat l * u\<rfloor>" using a by simp
  ultimately show ?thesis by (simp add: floor_index_def nat_less_iff)
qed

lemma rng_random_fst: "fst (rng_random r n st) = map (uniform (rngs st r)) [pos (rngs st r) ..< pos (rngs st r) + n]"
  by (simp add: rng_random_def Let_def)

lemma rng_random_length [simp]: "length (fst (rng_random r n st)) = n"
  by (simp add: rng_random_fst)

lemma rng_random_range: "u \<in> set (fst (rng_random r n st)) \<Longrightarrow> 0 \<le> u \<and> u < 1"
  by (auto simp: rng_random_fst uniform_range)

lemma rng_random_series [simp]: "series (snd (rng_random r n st)) = series st"
  "n_series (snd (rng_random r n st)) = n_series st"
  by (simp_all add: rng_random_def Let_def)

lemma rng_random_index [simp]: "index (snd (rng_random r n st)) = index st"
  by (simp add: rng_random_def Let_def)

subsection \<open>Updates under distinct labels\<close>

text \<open>
  What an update writes when the labels of the series are pairwise distinct: each row of
  \<open>other\<close> goes to its own position, and no other row changes.
\<close>

definition write_rows :: "string list \<Rightarrow> (nat \<times> string) list \<Rightarrow> string list" where
  "write_rows ys other =
     map (\<lambda>(q, y). case map_of other q of Some v \<Rightarrow> v | None \<Rightarrow> y) (enumerate 0 ys)"

lemma length_write_rows [simp]: "length (write_rows ys other) = length ys"
  by (simp add: write_rows_def)

lemma nth_write_rows:
  "q < length ys \<Longrightarrow> write_rows ys other ! q = (case map_of other q of Some v \<Rightarrow> v | None \<Rightarrow> ys ! q)"
  by (simp add: write_rows_def nth_enumerate_eq)

lemma length_fold_write_rows [simp]:
  "length (fold (\<lambda>i ys. write_rows ys (F i)) is ys) = length ys"
  by (induction "is" arbitrary: ys) simp_all

lemma length_row_labels [simp]: "length (row_labels st a) = length (series st a)"
  by (simp add: row_labels_def)

lemma map_of_relabel:
  assumes "inj_on f (insert q (fst ` set xs))"
  shows "map_of (map (\<lambda>(p, v). (f p, g v)) xs) (f q) = map_option g (map_of xs q)"
  using assms
proof (induction xs)
  case Nil
  then show ?case by simp
next
  case (Cons x xs)
  obtain p v where x: "x = (p, v)" by (cases x)
  have inj: "inj_on f (insert q (fst ` set xs))"
    using Cons.prems by (auto simp: inj_on_def)
  have "f p = f q \<longleftrightarrow> p = q" "f q = f p \<longleftrightarrow> q = p"
    using Cons.prems x by (auto simp: inj_on_def)
  then show ?case using Cons.IH[OF inj] x by simp
qed

lemma update_in_place_distinct:
  assumes d: "distinct (row_labels st a)"
    and p: "distinct (map fst other)"
    and r: "\<forall>p\<in>set (map fst other). p < length (series st a)"
  shows "update_in_place a (map (\<lambda>(p, v). (p, Some v)) other) st =
     Return () (st\<lparr>series := (series st)(a := write_rows (series st a) other)\<rparr>)"
proof -
  let ?ys = "series st a"
  let ?n = "length ?ys"
  let ?f = "index st a"
  let ?o = "map (\<lambda>(p, v). (p, Some v)) other"
  let ?oi = "map (\<lambda>(p, v). ?f p) ?o"
  let ?re = "map (\<lambda>l. case map_of (zip ?oi (map snd ?o)) l of Some v \<Rightarrow> v | None \<Rightarrow> None)
               (row_labels st a)"
  let ?put = "\<lambda>reindexed. map2 (\<lambda>y v. case v of Some x \<Rightarrow> x | None \<Rightarrow> y) ?ys reindexed"
  have inj: "inj_on ?f {0..<?n}" using d by (simp add: row_labels_def distinct_map)
  have oi: "?oi = map ?f (map fst other)" by (simp add: case_prod_unfold)
  have sub: "set (map fst other) \<subseteq> {0..<?n}" using r by auto
  have inj_o: "inj_on ?f (set (map fst other))" by (rule inj_on_subset[OF inj sub])
  have dist: "distinct ?oi"
    unfolding oi using distinct_map[of ?f "map fst other"] p inj_o by blast
  have z: "zip ?oi (map snd ?o) = map (\<lambda>(p, v). (?f p, Some v)) other"
    by (induction other) auto
  have look: "map_of (zip ?oi (map snd ?o)) (?f q) = map_option Some (map_of other q)"
    if "q < ?n" for q
    unfolding z
  proof (rule map_of_relabel)
    have "insert q (fst ` set other) \<subseteq> {0..<?n}" using that sub by auto
    then show "inj_on ?f (insert q (fst ` set other))" by (rule inj_on_subset[OF inj])
  qed
  have nre: "?re ! q = map_of other q" if "q < ?n" for q
  proof -
    have "row_labels st a ! q = ?f q" using that by (simp add: row_labels_def)
    then have "?re ! q = (case map_of (zip ?oi (map snd ?o)) (?f q) of Some v \<Rightarrow> v | None \<Rightarrow> None)"
      using that by simp
    also have "\<dots> = map_of other q" unfolding look[OF that] by (cases "map_of other q") simp_all
    finally show ?thesis .
  qed
  have re: "?put ?re = write_rows ?ys other"
  proof (rule nth_equalityI)
    show "length (?put ?re) = length (write_rows ?ys other)" by simp
    fix q assume "q < length (?put ?re)"
    then have q: "q < ?n" by simp
    have "?put ?re ! q = (case ?re ! q of Some x \<Rightarrow> x | None \<Rightarrow> ?ys ! q)" using q by simp
    then show "?put ?re ! q = write_rows ?ys other ! q"
      unfolding nre[OF q] using q by (simp only: nth_write_rows)
  qed
  have same: "map snd ?o = ?re" if e: "?oi = row_labels st a"
  proof -
    from e have "map ?f (map fst other) = map ?f [0..<?n]" unfolding oi row_labels_def .
    moreover have "inj_on ?f (set (map fst other) \<union> set [0..<?n])"
      by (rule inj_on_subset[OF inj]) (use sub in auto)
    ultimately have m: "map fst other = [0..<?n]" by (simp only: inj_on_map_eq_map)
    then have l: "length other = ?n" by (metis length_map length_upt minus_nat.diff_0)
    show ?thesis
    proof (rule nth_equalityI)
      show "length (map snd ?o) = length ?re" using l by simp
      fix q assume "q < length (map snd ?o)"
      then have q: "q < ?n" "q < length other" using l by simp_all
      have "fst (other ! q) = q" using m q by (metis nth_map nth_upt plus_nat.add_0)
      then have "(q, snd (other ! q)) \<in> set other" using q(2) by (metis nth_mem prod.collapse)
      then have "map_of other q = Some (snd (other ! q))" using p by simp
      then have "?re ! q = Some (snd (other ! q))" using nre[OF q(1)] by simp
      moreover have "map snd ?o ! q = Some (snd (other ! q))"
        using q(2) by (simp add: case_prod_unfold)
      ultimately show "map snd ?o ! q = ?re ! q" by simp
    qed
  qed
  show ?thesis
  proof (cases "?oi = row_labels st a")
    case True
    have "update_in_place a ?o st = Return () (st\<lparr>series := (series st)(a := ?put (map snd ?o))\<rparr>)"
      using True by (simp only: update_in_place_def Let_def if_True simp_thms)
    moreover have "?put (map snd ?o) = write_rows ?ys other"
    proof -
      have "?put (map snd ?o) = ?put ?re" using same[OF True] by (rule arg_cong)
      also have "\<dots> = write_rows ?ys other" by (rule re)
      finally show ?thesis .
    qed
    ultimately show ?thesis by (simp only:)
  next
    case False
    have "update_in_place a ?o st = Return () (st\<lparr>series := (series st)(a := ?put ?re)\<rparr>)"
      using False dist by (simp only: update_in_place_def Let_def if_False not_True_eq_False simp_thms)
    then show ?thesis unfolding re .
  qed
qed

lemma update_each_distinct:
  assumes "distinct (row_labels st a)"
    and "\<And>i. i \<in> set is \<Longrightarrow>
           distinct (map fst (F i)) \<and> (\<forall>p\<in>set (map fst (F i)). p < length (series st a))"
  shows "update_each a (\<lambda>i. map (\<lambda>(p, v). (p, Some v)) (F i)) is st =
     Return () (st\<lparr>series := (series st)(a := fold (\<lambda>i ys. write_rows ys (F i)) is (series st a))\<rparr>)"
  using assms
proof (induction "is" arbitrary: st)
  case Nil
  then show ?case by simp
next
  case (Cons i "is")
  let ?st1 = "st\<lparr>series := (series st)(a := write_rows (series st a) (F i))\<rparr>"
  have u: "update_in_place a (map (\<lambda>(p, v). (p, Some v)) (F i)) st = Return () ?st1"
    by (rule update_in_place_distinct) (use Cons.prems in auto)
  have l: "row_labels ?st1 a = row_labels st a" by (simp add: row_labels_def)
  have ih: "update_each a (\<lambda>i. map (\<lambda>(p, v). (p, Some v)) (F i)) is ?st1 =
     Return () (?st1\<lparr>series := (series ?st1)
        (a := fold (\<lambda>i ys. write_rows ys (F i)) is (series ?st1 a))\<rparr>)"
  proof (rule Cons.IH)
    show "distinct (row_labels ?st1 a)" unfolding l by (rule Cons.prems(1))
    fix j assume "j \<in> set is"
    then have "j \<in> set (i # is)" by simp
    from Cons.prems(2)[OF this]
    show "distinct (map fst (F j)) \<and> (\<forall>p\<in>set (map fst (F j)). p < length (series ?st1 a))"
      by simp
  qed
  have s1: "?st1\<lparr>series := (series ?st1)(a := Y)\<rparr> = st\<lparr>series := (series st)(a := Y)\<rparr>" for Y
    by simp
  have f: "fold (\<lambda>i ys. write_rows ys (F i)) (i # is) (series st a) =
      fold (\<lambda>i ys. write_rows ys (F i)) is (series ?st1 a)"
    by simp
  show ?case by (simp only: update_each.simps u result.case ih s1 f)
qed

text \<open>
  The loops of the delete, transpose and substitute corruptors: each update holds the
  rows of a view whose drawn index is the current one.
\<close>

lemma update_each_view:
  fixes W :: "'r list" and lab :: "'r \<Rightarrow> nat" and G :: "nat \<Rightarrow> 'r \<Rightarrow> string"
  defines "F \<equiv> \<lambda>idxs i. map (\<lambda>w. (lab w, G i w)) (map fst (filter (\<lambda>(w, j). j = i) (zip W idxs)))"
  assumes d: "distinct (row_labels st a)" and dl: "distinct (map lab W)"
    and rl: "\<forall>w\<in>set W. lab w < length (series st a)"
    and H: "\<And>i. H i = map (\<lambda>(p, v). (p, Some v)) (F idxs i)"
  shows "update_each a H is st =
     Return () (st\<lparr>series := (series st)(a := fold (\<lambda>i ys. write_rows ys (F idxs i)) is (series st a))\<rparr>)"
proof -
  have pos: "distinct (map fst (F idxs i)) \<and> (\<forall>p\<in>set (map fst (F idxs i)). p < length (series st a))"
    for i
  proof
    let ?rows = "map fst (filter (\<lambda>(w, j). j = i) (zip W idxs))"
    have m: "map fst (F idxs i) = map lab ?rows" by (simp add: F_def comp_def)
    have "distinct (map lab (map fst (zip W idxs)))"
      using dl by (simp add: map_fst_zip_take distinct_take take_map[symmetric])
    then have "distinct (map (lab \<circ> fst) (zip W idxs))" by simp
    then have "distinct (map (lab \<circ> fst) (filter (\<lambda>(w, j). j = i) (zip W idxs)))"
      by (rule distinct_map_filter)
    then show "distinct (map fst (F idxs i))" unfolding m by simp
    have "set ?rows \<subseteq> set W" by (auto dest: set_zip_leftD)
    then show "\<forall>p\<in>set (map fst (F idxs i)). p < length (series st a)"
      unfolding m using rl by auto
  qed
  have "H = (\<lambda>i. map (\<lambda>(p, v). (p, Some v)) (F idxs i))" using H by blast
  then show ?thesis using update_each_distinct[OF d, of "is" "F idxs"] pos by simp
qed

lemma fold_write_rows_inv:
  assumes "\<And>i v. i \<in> set is \<Longrightarrow> map_of (F i) q = Some v \<Longrightarrow> P v"
    and "q < length ys"
  shows "(fold (\<lambda>i ys. write_rows ys (F i)) is ys ! q = ys ! q \<and> (\<forall>i\<in>set is. map_of (F i) q = None))
       \<or> P (fold (\<lambda>i ys. write_rows ys (F i)) is ys ! q)"
  using assms
proof (induction "is" arbitrary: ys)
  case Nil
  then show ?case by simp
next
  case (Cons i "is")
  let ?ys = "write_rows ys (F i)"
  have len: "q < length ?ys" using Cons.prems by simp
  have ih: "(fold (\<lambda>i ys. write_rows ys (F i)) is ?ys ! q = ?ys ! q \<and> (\<forall>i\<in>set is. map_of (F i) q = None))
       \<or> P (fold (\<lambda>i ys. write_rows ys (F i)) is ?ys ! q)"
  proof (rule Cons.IH)
    show "\<And>i' v. i' \<in> set is \<Longrightarrow> map_of (F i') q = Some v \<Longrightarrow> P v"
      using Cons.prems(1) by auto
    show "q < length ?ys" by (rule len)
  qed
  show ?case
  proof (cases "map_of (F i) q")
    case None
    then have "?ys ! q = ys ! q" using Cons.prems by (simp add: nth_write_rows)
    with ih None show ?thesis by auto
  next
    case (Some v)
    then have "?ys ! q = v" using Cons.prems by (simp add: nth_write_rows)
    moreover have "P v" using Cons.prems(1)[of i v] Some by simp
    ultimately show ?thesis using ih by auto
  qed
qed


lemma set_unique [simp]: "set (unique xs) = set xs"
  by (simp add: unique_def)

lemma distinct_unique [simp]: "distinct (unique xs)"
  by (simp add: unique_def)

lemma in_min_len_view:
  "(q, s) \<in> set (min_len_view k xs) \<longleftrightarrow> q < length xs \<and> s = xs ! q \<and> k \<le> length s"
  by (auto simp: min_len_view_def in_set_enumerate_eq)

lemma view_loop:
  fixes W :: "'r list" and lab :: "'r \<Rightarrow> nat" and G :: "nat \<Rightarrow> 'r \<Rightarrow> string"
  defines "F \<equiv> \<lambda>idxs i. map (\<lambda>w. (lab w, G i w)) (map fst (filter (\<lambda>(w, j). j = i) (zip W idxs)))"
  assumes len: "length idxs = length W" and q: "q < length ys"
  shows "(fold (\<lambda>i ys. write_rows ys (F idxs i)) (unique idxs) ys ! q = ys ! q \<and> q \<notin> lab ` set W)
       \<or> (\<exists>w j. (w, j) \<in> set (zip W idxs) \<and> lab w = q
             \<and> fold (\<lambda>i ys. write_rows ys (F idxs i)) (unique idxs) ys ! q = G j w)"
proof -
  let ?P = "\<lambda>v. \<exists>w j. (w, j) \<in> set (zip W idxs) \<and> lab w = q \<and> v = G j w"
  let ?Y = "fold (\<lambda>i ys. write_rows ys (F idxs i)) (unique idxs) ys"
  have writes: "\<And>i v. i \<in> set (unique idxs) \<Longrightarrow> map_of (F idxs i) q = Some v \<Longrightarrow> ?P v"
  proof -
    fix i v
    assume "map_of (F idxs i) q = Some v"
    then have "(q, v) \<in> set (F idxs i)" by (rule map_of_SomeD)
    then obtain a where "v = G i a" "q = lab a" "(a, i) \<in> set (zip W idxs)"
      by (auto simp: F_def)
    then show "?P v" by blast
  qed
  have "(?Y ! q = ys ! q \<and> (\<forall>i\<in>set (unique idxs). map_of (F idxs i) q = None)) \<or> ?P (?Y ! q)"
  proof (rule fold_write_rows_inv[where P = ?P])
    show "\<And>i v. i \<in> set (unique idxs) \<Longrightarrow> map_of (F idxs i) q = Some v \<Longrightarrow> ?P v"
      by (rule writes)
    show "q < length ys" by (rule q)
  qed
  moreover have "q \<notin> lab ` set W" if none: "\<forall>i\<in>set (unique idxs). map_of (F idxs i) q = None"
  proof
    assume "q \<in> lab ` set W"
    then obtain n where n: "n < length W" "lab (W ! n) = q"
      by (auto simp: in_set_conv_nth)
    have z: "(W ! n, idxs ! n) \<in> set (zip W idxs)"
      using n len by (auto simp: in_set_zip)
    have "idxs ! n \<in> set (unique idxs)" using n len by simp
    with none have "map_of (F idxs (idxs ! n)) q = None" by blast
    then have "q \<notin> fst ` set (F idxs (idxs ! n))" by (simp add: map_of_eq_None_iff)
    moreover have "(q, G (idxs ! n) (W ! n)) \<in> set (F idxs (idxs ! n))"
      using z n by (force simp: F_def)
    ultimately show False by force
  qed
  ultimately show ?thesis by blast
qed

lemma zip_map2_member:
  assumes "(w, j) \<in> set (zip W (map2 H W us))"
  shows "\<exists>u\<in>set us. j = H w u"
proof -
  from assms obtain n where n: "n < length W" "n < length us" "W ! n = w" "map2 H W us ! n = j"
    by (auto simp: in_set_zip)
  then have "j = H w (us ! n)" by simp
  with n show ?thesis by auto
qed


lemma length_delete_at: "i < length s \<Longrightarrow> length (delete_at i s) + 1 = length s"
  by (simp add: delete_at_def)

lemma delete_rows:
  assumes len: "length us = length (min_len_view 1 X)"
    and rng: "\<forall>u\<in>set us. 0 \<le> u \<and> u < 1"
  defines "idxs \<equiv> map2 (\<lambda>(p, s) u. floor_index (length s) u) (min_len_view 1 X) us"
  shows "list_all2 (\<lambda>s t. if s = [] then t = [] else length t + 1 = length s) X
           (fold (\<lambda>i ys. write_rows ys
                   (map (\<lambda>(p, s). (p, delete_at i s)) (select_rows i (zip (min_len_view 1 X) idxs))))
              (unique idxs) X)"
proof -
  let ?V = "min_len_view 1 X"
  let ?G = "\<lambda>i (w :: nat \<times> string). delete_at i (snd w)"
  let ?F = "\<lambda>i. map (\<lambda>w. (fst w, ?G i w)) (map fst (filter (\<lambda>(w, j). j = i) (zip ?V idxs)))"
  have F: "\<And>i. map (\<lambda>(p, s). (p, delete_at i s)) (select_rows i (zip ?V idxs)) = ?F i"
    by (simp add: select_rows_def case_prod_unfold)
  let ?Y = "fold (\<lambda>i ys. write_rows ys (?F i)) (unique idxs) X"
  have li: "length idxs = length ?V" using len by (simp add: idxs_def)
  have row: "if X ! q = [] then ?Y ! q = [] else length (?Y ! q) + 1 = length (X ! q)"
    if q: "q < length X" for q
  proof -
    from view_loop[where W = ?V and lab = fst and G = ?G and idxs = idxs and ys = X, OF li q]
    consider (same) "?Y ! q = X ! q" "q \<notin> fst ` set ?V"
      | (written) w j where "(w, j) \<in> set (zip ?V idxs)" "fst w = q" "?Y ! q = ?G j w"
      by blast
    then show ?thesis
    proof cases
      case same
      have "X ! q = []"
      proof (rule ccontr)
        assume "X ! q \<noteq> []"
        then have "(q, X ! q) \<in> set ?V" using q by (simp add: in_min_len_view Suc_le_eq)
        then show False using same(2) by force
      qed
      with same show ?thesis by simp
    next
      case written
      have wV: "w \<in> set ?V" using written(1) by (auto dest: set_zip_leftD)
      then have w: "snd w = X ! q" "1 \<le> length (snd w)"
        using written(2) in_min_len_view[of "fst w" "snd w" 1 X] by auto
      from written(1) obtain u where u: "u \<in> set us" "j = floor_index (length (snd w)) u"
        using zip_map2_member[of w j ?V "\<lambda>(p, s) u. floor_index (length s) u" us]
        by (auto simp: idxs_def case_prod_beta)
      have "j < length (snd w)" using u rng w by (auto intro!: floor_index_less)
      then show ?thesis using written(3) w by (auto simp: delete_at_def)
    qed
  qed
  have "length X = length ?Y" by (simp only: length_fold_write_rows)
  with row show ?thesis unfolding F list_all2_conv_all_nth by blast
qed


lemma min_len_view_empty: "min_len_view k X = [] \<Longrightarrow> s \<in> set X \<Longrightarrow> length s < k"
proof (rule ccontr)
  assume e: "min_len_view k X = []" and s: "s \<in> set X" and n: "\<not> length s < k"
  from s obtain q where "q < length X" "X ! q = s" by (auto simp: in_set_conv_nth)
  with n have "(q, s) \<in> set (min_len_view k X)" by (simp add: in_min_len_view)
  with e show False by simp
qed

lemma case_rng_random:
  "(case rng_random r n st of (us, st') \<Rightarrow> f us st') = f (fst (rng_random r n st)) (snd (rng_random r n st))"
  by (simp add: case_prod_beta)

lemma case_series_copy:
  "(case series_copy st a of (out, st1) \<Rightarrow> f out st1) = f (n_series st) (snd (series_copy st a))"
  by (simp add: series_copy_def)

lemma series_copy_new [simp]:
  "series (snd (series_copy st a)) (n_series st) = series st a"
  "index (snd (series_copy st a)) (n_series st) = index st a"
  "row_labels (snd (series_copy st a)) (n_series st) = row_labels st a"
  by (simp_all add: series_copy_def row_labels_def)

lemma row_labels_rng_random [simp]:
  "row_labels (snd (rng_random r n st)) a = row_labels st a"
  by (simp add: row_labels_def)

lemma view_positions:
  "distinct (map fst (min_len_view k X))" "\<forall>w\<in>set (min_len_view k X). fst w < length X"
  by (auto simp: min_len_view_def distinct_map_filter in_set_enumerate_eq)

lemma with_delete_eq:
  assumes v: "min_len_view 1 (series st a) \<noteq> []" and d: "distinct (row_labels st a)"
  shows "\<exists>st'. with_delete r st a = Return (n_series st) st' \<and>
     series st' (n_series st) =
       fold (\<lambda>i ys. write_rows ys
                   (map (\<lambda>(p, s). (p, delete_at i s))
                      (select_rows i (zip (min_len_view 1 (series st a))
                         (map2 (\<lambda>(p, s) u. floor_index (length s) u) (min_len_view 1 (series st a))
                            (fst (rng_random r (length (min_len_view 1 (series st a))) (snd (series_copy st a)))))))))
              (unique (map2 (\<lambda>(p, s) u. floor_index (length s) u) (min_len_view 1 (series st a))
                            (fst (rng_random r (length (min_len_view 1 (series st a))) (snd (series_copy st a))))))
              (series st a)"
proof -
  let ?V = "min_len_view 1 (series st a)"
  let ?st1 = "snd (series_copy st a)"
  let ?us = "fst (rng_random r (length ?V) ?st1)"
  let ?st2 = "snd (rng_random r (length ?V) ?st1)"
  let ?idxs = "map2 (\<lambda>(p, s) u. floor_index (length s) u) ?V ?us"
  let ?out = "n_series st"
  let ?G = "\<lambda>i (w :: nat \<times> string). delete_at i (snd w)"
  let ?F = "\<lambda>i. map (\<lambda>w. (fst w, ?G i w)) (map fst (filter (\<lambda>(w, j). j = i) (zip ?V ?idxs)))"
  let ?H = "\<lambda>i. map (\<lambda>(p, s). (p, Some (delete_at i s))) (select_rows i (zip ?V ?idxs))"
  let ?st3 = "?st2\<lparr>series := (series ?st2)
                 (?out := fold (\<lambda>i ys. write_rows ys (?F i)) (unique ?idxs) (series ?st2 ?out))\<rparr>"
  have u: "update_each ?out ?H (unique ?idxs) ?st2 = Return () ?st3"
  proof (rule update_each_view[where lab = fst and G = ?G])
    show "distinct (row_labels ?st2 ?out)" using d by simp
    show "distinct (map fst ?V)" by (rule view_positions)
    show "\<forall>w\<in>set ?V. fst w < length (series ?st2 ?out)" using view_positions(2) by simp
    show "\<And>i. ?H i = map (\<lambda>(p, v). (p, Some v)) (?F i)"
      by (simp add: select_rows_def case_prod_unfold)
  qed
  have F: "\<And>i. map (\<lambda>(p, s). (p, delete_at i s)) (select_rows i (zip ?V ?idxs)) = ?F i"
    by (simp add: select_rows_def case_prod_unfold)
  have "with_delete r st a =
      (case update_each ?out ?H (unique ?idxs) ?st2 of
         Raise e st3 \<Rightarrow> Raise e st3 | Return x st3 \<Rightarrow> Return ?out st3)"
    using v by (simp add: with_delete_def Let_def case_series_copy case_rng_random)
  then have "with_delete r st a = Return ?out ?st3" by (simp only: u result.case)
  moreover have "series ?st3 ?out = fold (\<lambda>i ys. write_rows ys (?F i)) (unique ?idxs) (series st a)"
    by simp
  ultimately show ?thesis unfolding F by blast
qed

lemma with_delete_rows:
  assumes d: "distinct (row_labels st a)"
  shows "\<exists>out st'. with_delete r st a = Return out st'
     \<and> list_all2 (\<lambda>s t. if s = [] then t = [] else length t + 1 = length s)
          (series st a) (series st' out)"
proof (cases "min_len_view 1 (series st a) = []")
  case True
  then have "\<forall>s\<in>set (series st a). s = []"
    using min_len_view_empty[of 1 "series st a"] by auto
  then have "list_all2 (\<lambda>s t. if s = [] then t = [] else length t + 1 = length s)
          (series st a) (series st a)"
    by (simp add: list_all2_conv_all_nth)
  with True show ?thesis by (simp add: with_delete_def)
next
  case False
  from with_delete_eq[OF False d, of r] obtain st' where
    r: "with_delete r st a = Return (n_series st) st'" and
    s: "series st' (n_series st) =
       fold (\<lambda>i ys. write_rows ys
                   (map (\<lambda>(p, s). (p, delete_at i s))
                      (select_rows i (zip (min_len_view 1 (series st a))
                         (map2 (\<lambda>(p, s) u. floor_index (length s) u) (min_len_view 1 (series st a))
                            (fst (rng_random r (length (min_len_view 1 (series st a))) (snd (series_copy st a)))))))))
              (unique (map2 (\<lambda>(p, s) u. floor_index (length s) u) (min_len_view 1 (series st a))
                            (fst (rng_random r (length (min_len_view 1 (series st a))) (snd (series_copy st a))))))
              (series st a)"
    by blast
  have "list_all2 (\<lambda>s t. if s = [] then t = [] else length t + 1 = length s) (series st a)
     (series st' (n_series st))"
    unfolding s by (rule delete_rows) (auto dest: rng_random_range)
  with r show ?thesis by blast
qed


lemma transpose_at_props:
  assumes "j + 1 < length s"
  shows "mset (transpose_at j s) = mset s" "length (transpose_at j s) = length s"
proof -
  have "s = take j s @ s ! j # drop (Suc j) s" using assms by (simp add: id_take_nth_drop)
  moreover have "drop (Suc j) s = s ! (j + 1) # drop (j + 2) s"
    using assms by (simp add: Cons_nth_drop_Suc)
  ultimately have s: "s = take j s @ [s ! j] @ [s ! (j + 1)] @ drop (j + 2) s" by simp
  have "mset s = mset (take j s @ [s ! j] @ [s ! (j + 1)] @ drop (j + 2) s)"
    using s by simp
  then show "mset (transpose_at j s) = mset s" by (simp add: transpose_at_def)
  show "length (transpose_at j s) = length s" using assms by (simp add: transpose_at_def)
qed

lemma transpose_rows:
  assumes len: "length us = length (min_len_view 2 X)"
    and rng: "\<forall>u\<in>set us. 0 \<le> u \<and> u < 1"
  defines "idxs \<equiv> map2 (\<lambda>(p, s) u. floor_index (length s - 1) u) (min_len_view 2 X) us"
  shows "list_all2 (\<lambda>s t. length t = length s \<and> mset t = mset s) X
           (fold (\<lambda>i ys. write_rows ys
                   (map (\<lambda>(p, s). (p, transpose_at i s)) (select_rows i (zip (min_len_view 2 X) idxs))))
              (unique idxs) X)"
proof -
  let ?V = "min_len_view 2 X"
  let ?G = "\<lambda>i (w :: nat \<times> string). transpose_at i (snd w)"
  let ?F = "\<lambda>i. map (\<lambda>w. (fst w, ?G i w)) (map fst (filter (\<lambda>(w, j). j = i) (zip ?V idxs)))"
  have F: "\<And>i. map (\<lambda>(p, s). (p, transpose_at i s)) (select_rows i (zip ?V idxs)) = ?F i"
    by (simp add: select_rows_def case_prod_unfold)
  let ?Y = "fold (\<lambda>i ys. write_rows ys (?F i)) (unique idxs) X"
  have li: "length idxs = length ?V" using len by (simp add: idxs_def)
  have row: "length (?Y ! q) = length (X ! q) \<and> mset (?Y ! q) = mset (X ! q)"
    if q: "q < length X" for q
  proof -
    from view_loop[where W = ?V and lab = fst and G = ?G and idxs = idxs and ys = X, OF li q]
    consider (same) "?Y ! q = X ! q"
      | (written) w j where "(w, j) \<in> set (zip ?V idxs)" "fst w = q" "?Y ! q = ?G j w"
      by blast
    then show ?thesis
    proof cases
      case same
      then show ?thesis by simp
    next
      case written
      have wV: "w \<in> set ?V" using written(1) by (auto dest: set_zip_leftD)
      then have w: "snd w = X ! q" "2 \<le> length (snd w)"
        using written(2) in_min_len_view[of "fst w" "snd w" 2 X] by auto
      from written(1) obtain u where u: "u \<in> set us" "j = floor_index (length (snd w) - 1) u"
        using zip_map2_member[of w j ?V "\<lambda>(p, s) u. floor_index (length s - 1) u" us]
        by (auto simp: idxs_def case_prod_beta)
      have "j < length (snd w) - 1" using u rng w by (auto intro!: floor_index_less)
      then have "j + 1 < length (X ! q)" using w by simp
      then show ?thesis using written(3) w by (simp add: transpose_at_props)
    qed
  qed
  have "length X = length ?Y" by (simp only: length_fold_write_rows)
  with row show ?thesis unfolding F list_all2_conv_all_nth by blast
qed

lemma with_transpose_eq:
  assumes v: "min_len_view 2 (series st a) \<noteq> []" and d: "distinct (row_labels st a)"
  shows "\<exists>st'. with_transpose r st a = Return (n_series st) st' \<and>
     series st' (n_series st) =
       fold (\<lambda>i ys. write_rows ys
                   (map (\<lambda>(p, s). (p, transpose_at i s))
                      (select_rows i (zip (min_len_view 2 (series st a))
                         (map2 (\<lambda>(p, s) u. floor_index (length s - 1) u) (min_len_view 2 (series st a))
                            (fst (rng_random r (length (min_len_view 2 (series st a))) (snd (series_copy st a)))))))))
              (unique (map2 (\<lambda>(p, s) u. floor_index (length s - 1) u) (min_len_view 2 (series st a))
                            (fst (rng_random r (length (min_len_view 2 (series st a))) (snd (series_copy st a))))))
              (series st a)"
proof -
  let ?V = "min_len_view 2 (series st a)"
  let ?st1 = "snd (series_copy st a)"
  let ?us = "fst (rng_random r (length ?V) ?st1)"
  let ?st2 = "snd (rng_random r (length ?V) ?st1)"
  let ?idxs = "map2 (\<lambda>(p, s) u. floor_index (length s - 1) u) ?V ?us"
  let ?out = "n_series st"
  let ?G = "\<lambda>i (w :: nat \<times> string). transpose_at i (snd w)"
  let ?F = "\<lambda>i. map (\<lambda>w. (fst w, ?G i w)) (map fst (filter (\<lambda>(w, j). j = i) (zip ?V ?idxs)))"
  let ?H = "\<lambda>i. map (\<lambda>(p, s). (p, Some (transpose_at i s))) (select_rows i (zip ?V ?idxs))"
  let ?st3 = "?st2\<lparr>series := (series ?st2)
                 (?out := fold (\<lambda>i ys. write_rows ys (?F i)) (unique ?idxs) (series ?st2 ?out))\<rparr>"
  have u: "update_each ?out ?H (unique ?idxs) ?st2 = Return () ?st3"
  proof (rule update_each_view[where lab = fst and G = ?G])
    show "distinct (row_labels ?st2 ?out)" using d by simp
    show "distinct (map fst ?V)" by (rule view_positions)
    show "\<forall>w\<in>set ?V. fst w < length (series ?st2 ?out)" using view_positions(2) by simp
    show "\<And>i. ?H i = map (\<lambda>(p, v). (p, Some v)) (?F i)"
      by (simp add: select_rows_def case_prod_unfold)
  qed
  have F: "\<And>i. map (\<lambda>(p, s). (p, transpose_at i s)) (select_rows i (zip ?V ?idxs)) = ?F i"
    by (simp add: select_rows_def case_prod_unfold)
  have "with_transpose r st a =
      (case update_each ?out ?H (unique ?idxs) ?st2 of
         Raise e st3 \<Rightarrow> Raise e st3 | Return x st3 \<Rightarrow> Return ?out st3)"
    using v by (simp add: with_transpose_def Let_def case_series_copy case_rng_random)
  then have "with_transpose r st a = Return ?out ?st3" by (simp only: u result.case)
  moreover have "series ?st3 ?out = fold (\<lambda>i ys. write_rows ys (?F i)) (unique ?idxs) (series st a)"
    by simp
  ultimately show ?thesis unfolding F by blast
qed

lemma with_transpose_rows:
  assumes d: "distinct (row_labels st a)"
  shows "\<exists>out st'. with_transpose r st a = Return out st'
     \<and> list_all2 (\<lambda>s t. length t = length s \<and> mset t = mset s) (series st a) (series st' out)"
proof (cases "min_len_view 2 (series st a) = []")
  case True
  have "list_all2 (\<lambda>s t. length t = length s \<and> mset t = mset s) (series st a) (series st a)"
    by (simp add: list_all2_conv_all_nth)
  with True show ?thesis by (simp add: with_transpose_def)
next
  case False
  from with_transpose_eq[OF False d, of r] obtain st' where
    r: "with_transpose r st a = Return (n_series st) st'" and
    s: "series st' (n_series st) =
       fold (\<lambda>i ys. write_rows ys
                   (map (\<lambda>(p, s). (p, transpose_at i s))
                      (select_rows i (zip (min_len_view 2 (series st a))
                         (map2 (\<lambda>(p, s) u. floor_index (length s - 1) u) (min_len_view 2 (series st a))
                            (fst (rng_random r (length (min_len_view 2 (series st a))) (snd (series_copy st a)))))))))
              (unique (map2 (\<lambda>(p, s) u. floor_index (length s - 1) u) (min_len_view 2 (series st a))
                            (fst (rng_random r (length (min_len_view 2 (series st a))) (snd (series_copy st a))))))
              (series st a)"
    by blast
  have "list_all2 (\<lambda>s t. length t = length s \<and> mset t = mset s) (series st a)
     (series st' (n_series st))"
    unfolding s by (rule transpose_rows) (auto dest: rng_random_range)
  with r show ?thesis by blast
qed


lemma rng_choice_Return:
  "a \<noteq> [] \<or> n = 0 \<Longrightarrow>
   rng_choice r a n st =
     Return (map (\<lambda>u. a ! floor_index (length a) u) (fst (rng_random r n st))) (snd (rng_random r n st))"
  by (auto simp: rng_choice_def case_rng_random)

lemma rng_choice_member:
  assumes "a \<noteq> []" "c \<in> set (map (\<lambda>u. a ! floor_index (length a) u) (fst (rng_random r n st)))"
  shows "c \<in> set a"
proof -
  from assms(2) obtain u where u: "u \<in> set (fst (rng_random r n st))" "c = a ! floor_index (length a) u"
    by auto
  have "floor_index (length a) u < length a"
    using rng_random_range[OF u(1)] assms(1) by (auto intro!: floor_index_less)
  with u show ?thesis by simp
qed

lemma np_str_char: "c \<noteq> CHR 0x00 \<Longrightarrow> np_str [c] = [c]"
  by (simp add: np_str_def)

lemma np_charset:
  "CHR 0x00 \<notin> set charset \<Longrightarrow> map (\<lambda>c. np_str [c]) charset = map (\<lambda>c. [c]) charset"
  by (induction charset) (auto simp: np_str_char)

lemma lab_zip: "map (\<lambda>w. fst (fst w)) (zip V cs) = take (length cs) (map fst V)"
  by (induction V cs rule: list_induct2') auto

lemma distinct_lab_zip:
  "distinct (map fst V) \<Longrightarrow> distinct (map (\<lambda>w. fst (fst w)) (zip V cs))"
  by (simp only: lab_zip distinct_take)

lemma substitute_rows:
  assumes len: "length us = length (min_len_view 1 X)"
    and lenc: "length cs = length (min_len_view 1 X)"
    and rng: "\<forall>u\<in>set us. 0 \<le> u \<and> u < 1"
    and one: "\<forall>c\<in>set cs. length c = 1"
  defines "idxs \<equiv> map2 (\<lambda>(p, s) u. floor_index (length s) u) (min_len_view 1 X) us"
  shows "list_all2 (\<lambda>s t. length t = length s) X
           (fold (\<lambda>i ys. write_rows ys
                   (map (\<lambda>((p, s), c). (p, substitute_at i c s))
                      (map fst (filter (\<lambda>(row, j). j = i) (zip (zip (min_len_view 1 X) cs) idxs)))))
              (unique idxs) X)"
proof -
  let ?V = "min_len_view 1 X"
  let ?W = "zip ?V cs"
  let ?lab = "\<lambda>w :: (nat \<times> string) \<times> string. fst (fst w)"
  let ?G = "\<lambda>i (w :: (nat \<times> string) \<times> string). substitute_at i (snd w) (snd (fst w))"
  let ?F = "\<lambda>i. map (\<lambda>w. (?lab w, ?G i w)) (map fst (filter (\<lambda>(w, j). j = i) (zip ?W idxs)))"
  have F: "\<And>i. map (\<lambda>((p, s), c). (p, substitute_at i c s))
                      (map fst (filter (\<lambda>(row, j). j = i) (zip ?W idxs))) = ?F i"
    by (simp add: case_prod_unfold)
  let ?Y = "fold (\<lambda>i ys. write_rows ys (?F i)) (unique idxs) X"
  have li: "length idxs = length ?W" using len lenc by (simp add: idxs_def)
  have row: "length (?Y ! q) = length (X ! q)" if q: "q < length X" for q
  proof -
    from view_loop[where W = ?W and lab = ?lab and G = ?G and idxs = idxs and ys = X, OF li q]
    consider (same) "?Y ! q = X ! q"
      | (written) w j where "(w, j) \<in> set (zip ?W idxs)" "?lab w = q" "?Y ! q = ?G j w"
      by blast
    then show ?thesis
    proof cases
      case same
      then show ?thesis by simp
    next
      case written
      from written(1) obtain n where n: "n < length ?V" "n < length cs" "n < length us"
        "w = (?V ! n, cs ! n)" "j = idxs ! n"
        using len lenc by (auto simp: in_set_zip idxs_def)
      have "?V ! n \<in> set ?V" using n by simp
      then have w: "snd (fst w) = X ! q" "1 \<le> length (snd (fst w))"
        using written(2) n(4) in_min_len_view[of "fst (?V ! n)" "snd (?V ! n)" 1 X] by auto
      have c: "length (snd w) = 1" using one n by simp
      have "j = floor_index (length (snd (fst w))) (us ! n)"
        using n by (simp add: idxs_def case_prod_beta)
      moreover have "0 \<le> us ! n \<and> us ! n < 1" using rng n by simp
      ultimately have "j < length (snd (fst w))" using w by (auto intro!: floor_index_less)
      then show ?thesis using written(3) w c by (simp add: substitute_at_def)
    qed
  qed
  have "length X = length ?Y" by (simp only: length_fold_write_rows)
  with row show ?thesis unfolding F list_all2_conv_all_nth by blast
qed

lemma with_substitute_eq:
  assumes v: "min_len_view 1 (series st a) \<noteq> []" and c: "charset \<noteq> []"
    and d: "distinct (row_labels st a)"
  shows "\<exists>st' us cs. length us = length (min_len_view 1 (series st a))
     \<and> length cs = length (min_len_view 1 (series st a))
     \<and> (\<forall>u\<in>set us. 0 \<le> u \<and> u < 1)
     \<and> set cs \<subseteq> set (map (\<lambda>c. np_str [c]) charset)
     \<and> with_substitute charset r st a = Return (n_series st) st' \<and>
     series st' (n_series st) =
       fold (\<lambda>i ys. write_rows ys
                   (map (\<lambda>((p, s), c). (p, substitute_at i c s))
                      (map fst (filter (\<lambda>(row, j). j = i)
                         (zip (zip (min_len_view 1 (series st a)) cs)
                           (map2 (\<lambda>(p, s) u. floor_index (length s) u) (min_len_view 1 (series st a)) us))))))
              (unique (map2 (\<lambda>(p, s) u. floor_index (length s) u) (min_len_view 1 (series st a)) us))
              (series st a)"
proof -
  let ?V = "min_len_view 1 (series st a)"
  let ?st1 = "snd (series_copy st a)"
  let ?us = "fst (rng_random r (length ?V) ?st1)"
  let ?st2 = "snd (rng_random r (length ?V) ?st1)"
  let ?A = "map (\<lambda>c. np_str [c]) charset"
  let ?cs = "map (\<lambda>u. ?A ! floor_index (length ?A) u) (fst (rng_random r (length ?V) ?st2))"
  let ?st3 = "snd (rng_random r (length ?V) ?st2)"
  let ?idxs = "map2 (\<lambda>(p, s) u. floor_index (length s) u) ?V ?us"
  let ?out = "n_series st"
  let ?W = "zip ?V ?cs"
  let ?lab = "\<lambda>w :: (nat \<times> string) \<times> string. fst (fst w)"
  let ?G = "\<lambda>i (w :: (nat \<times> string) \<times> string). substitute_at i (snd w) (snd (fst w))"
  let ?F = "\<lambda>i. map (\<lambda>w. (?lab w, ?G i w)) (map fst (filter (\<lambda>(w, j). j = i) (zip ?W ?idxs)))"
  let ?H = "\<lambda>i. map (\<lambda>((p, s), c). (p, Some (substitute_at i c s)))
                  (map fst (filter (\<lambda>(row, j). j = i) (zip ?W ?idxs)))"
  let ?st4 = "?st3\<lparr>series := (series ?st3)
                 (?out := fold (\<lambda>i ys. write_rows ys (?F i)) (unique ?idxs) (series ?st3 ?out))\<rparr>"
  have A: "?A \<noteq> []" using c by simp
  have ch: "rng_choice r ?A (length ?V) ?st2 = Return ?cs ?st3"
    by (rule rng_choice_Return) (use c in simp)
  have m: "set ?cs \<subseteq> set ?A" using rng_choice_member[OF A] by blast
  have u: "update_each ?out ?H (unique ?idxs) ?st3 = Return () ?st4"
  proof (rule update_each_view[where lab = ?lab and G = ?G])
    show "distinct (row_labels ?st3 ?out)" using d by simp
    show "distinct (map ?lab ?W)"
      by (rule distinct_lab_zip) (rule view_positions)
    show "\<forall>w\<in>set ?W. ?lab w < length (series ?st3 ?out)"
      using view_positions(2)[of 1 "series st a"] by (auto dest!: set_zip_leftD)
    show "\<And>i. ?H i = map (\<lambda>(p, v). (p, Some v)) (?F i)"
      by (simp add: case_prod_unfold)
  qed
  have F: "\<And>i. map (\<lambda>((p, s), c). (p, substitute_at i c s))
                      (map fst (filter (\<lambda>(row, j). j = i) (zip ?W ?idxs))) = ?F i"
    by (simp add: case_prod_unfold)
  have "with_substitute charset r st a =
      (case rng_choice r ?A (length ?V) ?st2 of
         Raise e st3 \<Rightarrow> Raise e st3
       | Return srs_rand_chars st3 \<Rightarrow>
           (case update_each ?out
                   (\<lambda>i. map (\<lambda>((p, s), c). (p, Some (substitute_at i c s)))
                      (map fst (filter (\<lambda>(row, j). j = i) (zip (zip ?V srs_rand_chars) ?idxs))))
                   (unique ?idxs) st3 of
              Raise e st4 \<Rightarrow> Raise e st4 | Return x st4 \<Rightarrow> Return ?out st4))"
    using v
    by (simp add: with_substitute_def Let_def case_series_copy case_rng_random
        cong: result.case_cong)
  then have res: "with_substitute charset r st a = Return ?out ?st4"
    by (simp only: ch u result.case)
  have ser: "series ?st4 ?out = fold (\<lambda>i ys. write_rows ys (?F i)) (unique ?idxs) (series st a)"
    by simp
  show ?thesis
    apply (rule exI[where x = ?st4])
    apply (rule exI[where x = ?us])
    apply (rule exI[where x = ?cs])
    apply (intro conjI)
    subgoal by simp
    subgoal by simp
    subgoal by (auto dest: rng_random_range)
    subgoal by (rule m)
    subgoal by (rule res)
    subgoal unfolding F by (rule ser)
    done
qed

lemma with_substitute_rows:
  assumes c: "charset \<noteq> []" and d: "distinct (row_labels st a)"
    and nul: "CHR 0x00 \<notin> set charset"
  shows "\<exists>out st'. with_substitute charset r st a = Return out st'
     \<and> list_all2 (\<lambda>s t. length t = length s) (series st a) (series st' out)"
proof (cases "min_len_view 1 (series st a) = []")
  case True
  have "list_all2 (\<lambda>s t. length t = length s) (series st a) (series st a)"
    by (simp add: list_all2_conv_all_nth)
  with True show ?thesis by (simp add: with_substitute_def)
next
  case False
  from with_substitute_eq[OF False c d, of r] obtain st' us cs where
    l: "length us = length (min_len_view 1 (series st a))"
       "length cs = length (min_len_view 1 (series st a))"
       "\<forall>u\<in>set us. 0 \<le> u \<and> u < 1" and
    m: "set cs \<subseteq> set (map (\<lambda>c. np_str [c]) charset)" and
    r: "with_substitute charset r st a = Return (n_series st) st'" and
    s: "series st' (n_series st) =
       fold (\<lambda>i ys. write_rows ys
                   (map (\<lambda>((p, s), c). (p, substitute_at i c s))
                      (map fst (filter (\<lambda>(row, j). j = i)
                         (zip (zip (min_len_view 1 (series st a)) cs)
                           (map2 (\<lambda>(p, s) u. floor_index (length s) u) (min_len_view 1 (series st a)) us))))))
              (unique (map2 (\<lambda>(p, s) u. floor_index (length s) u) (min_len_view 1 (series st a)) us))
              (series st a)"
    by blast
  have one: "\<forall>c\<in>set cs. length c = 1" using m unfolding np_charset[OF nul] by auto
  have "list_all2 (\<lambda>s t. length t = length s) (series st a) (series st' (n_series st))"
    unfolding s using l one by (rule substitute_rows)
  with r show ?thesis by blast
qed


lemma length_assign_masked:
  "length idxs = length ys \<Longrightarrow> length cs = length ys \<Longrightarrow>
   length (assign_masked i f idxs cs ys) = length ys"
  by (simp add: assign_masked_def)

lemma nth_assign_masked:
  "q < length idxs \<Longrightarrow> q < length cs \<Longrightarrow> q < length ys \<Longrightarrow>
   assign_masked i f idxs cs ys ! q = (if idxs ! q = i then f i (cs ! q) (ys ! q) else ys ! q)"
  by (simp add: assign_masked_def)

lemma fold_assign_masked:
  assumes "distinct is" "length idxs = length ys" "length cs = length ys"
  shows "length (fold (\<lambda>i. assign_masked i f idxs cs) is ys) = length ys
    \<and> (\<forall>q<length ys. fold (\<lambda>i. assign_masked i f idxs cs) is ys ! q =
          (if idxs ! q \<in> set is then f (idxs ! q) (cs ! q) (ys ! q) else ys ! q))"
  using assms
proof (induction "is" arbitrary: ys)
  case Nil
  then show ?case by simp
next
  case (Cons i "is")
  let ?ys = "assign_masked i f idxs cs ys"
  have l: "length ?ys = length ys" using Cons.prems by (simp add: length_assign_masked)
  have ih: "length (fold (\<lambda>i. assign_masked i f idxs cs) is ?ys) = length ?ys
    \<and> (\<forall>q<length ?ys. fold (\<lambda>i. assign_masked i f idxs cs) is ?ys ! q =
          (if idxs ! q \<in> set is then f (idxs ! q) (cs ! q) (?ys ! q) else ?ys ! q))"
    by (rule Cons.IH) (use Cons.prems l in auto)
  have ni: "i \<notin> set is" using Cons.prems by simp
  show ?case
  proof (intro conjI allI impI)
    show "length (fold (\<lambda>i. assign_masked i f idxs cs) (i # is) ys) = length ys"
      using ih l by simp
    fix q assume q: "q < length ys"
    have n: "?ys ! q = (if idxs ! q = i then f i (cs ! q) (ys ! q) else ys ! q)"
      using q Cons.prems by (simp add: nth_assign_masked)
    have f: "fold (\<lambda>i. assign_masked i f idxs cs) is ?ys ! q =
          (if idxs ! q \<in> set is then f (idxs ! q) (cs ! q) (?ys ! q) else ?ys ! q)"
      using ih q l by simp
    show "fold (\<lambda>i. assign_masked i f idxs cs) (i # is) ys ! q =
          (if idxs ! q \<in> set (i # is) then f (idxs ! q) (cs ! q) (ys ! q) else ys ! q)"
    proof (cases "idxs ! q = i")
      case True
      then have "idxs ! q \<notin> set is" using ni by simp
      with f n True show ?thesis by simp
    next
      case False
      with f n show ?thesis by simp
    qed
  qed
qed

lemma fold_series_assign_masked:
  "fold (\<lambda>i. series_assign_masked out i f idxs cs) is st =
     st\<lparr>series := (series st)(out := fold (\<lambda>i. assign_masked i f idxs cs) is (series st out))\<rparr>"
  by (induction "is" arbitrary: st) (simp_all add: series_assign_masked_def)

lemma insert_rows:
  assumes len: "length us = length X" and lenc: "length cs = length X"
    and rng: "\<forall>u\<in>set us. 0 \<le> u \<and> u < 1" and cs: "set cs \<subseteq> (\<lambda>c. [c]) ` set charset"
  defines "idxs \<equiv> map2 (\<lambda>l u. floor_index (l + 1) u) (map length X) us"
  shows "list_all2 (\<lambda>s t. length t = length s + 1 \<and>
             (\<exists>i c. i \<le> length s \<and> c \<in> set charset \<and> t = insert_at i [c] s)) X
           (fold (\<lambda>i. assign_masked i insert_at idxs cs) (unique idxs) X)"
proof -
  let ?Y = "fold (\<lambda>i. assign_masked i insert_at idxs cs) (unique idxs) X"
  have li: "length idxs = length X" using len by (simp add: idxs_def)
  from fold_assign_masked[of "unique idxs" idxs X cs insert_at, OF distinct_unique li lenc]
  have ly: "length ?Y = length X"
    and ny: "\<And>q. q < length X \<Longrightarrow> ?Y ! q = insert_at (idxs ! q) (cs ! q) (X ! q)"
    using li by auto
  have row: "length (?Y ! q) = length (X ! q) + 1 \<and>
             (\<exists>i c. i \<le> length (X ! q) \<and> c \<in> set charset \<and> ?Y ! q = insert_at i [c] (X ! q))"
    if q: "q < length X" for q
  proof -
    have "idxs ! q = floor_index (length (X ! q) + 1) (us ! q)"
      using q len by (simp add: idxs_def)
    moreover have "0 \<le> us ! q \<and> us ! q < 1" using rng q len by simp
    ultimately have "idxs ! q < length (X ! q) + 1" by (auto intro!: floor_index_less)
    then have i: "idxs ! q \<le> length (X ! q)" by simp
    have "cs ! q \<in> set cs" using q lenc by simp
    then obtain c where c: "c \<in> set charset" "cs ! q = [c]" using cs by auto
    have "length (insert_at (idxs ! q) [c] (X ! q)) = length (X ! q) + 1"
      using i by (simp add: insert_at_def)
    with i c ny[OF q] show ?thesis by auto
  qed
  from ly row show ?thesis unfolding list_all2_conv_all_nth by simp
qed

lemma with_insert_eq:
  assumes "charset \<noteq> []"
  shows "\<exists>st' us cs. length us = length (series st a) \<and> length cs = length (series st a)
     \<and> (\<forall>u\<in>set us. 0 \<le> u \<and> u < 1) \<and> set cs \<subseteq> set (map (\<lambda>c. np_str [c]) charset)
     \<and> with_insert charset r st a = Return (n_series st) st' \<and>
     series st' (n_series st) =
       fold (\<lambda>i. assign_masked i insert_at
                   (map2 (\<lambda>l u. floor_index (l + 1) u) (map length (series st a)) us) cs)
         (unique (map2 (\<lambda>l u. floor_index (l + 1) u) (map length (series st a)) us))
         (series st a)"
proof -
  let ?n = "length (series st a)"
  let ?st1 = "snd (series_copy st a)"
  let ?us = "fst (rng_random r ?n ?st1)"
  let ?st2 = "snd (rng_random r ?n ?st1)"
  let ?A = "map (\<lambda>c. np_str [c]) charset"
  let ?cs = "map (\<lambda>u. ?A ! floor_index (length ?A) u) (fst (rng_random r ?n ?st2))"
  let ?idxs = "map2 (\<lambda>l u. floor_index (l + 1) u) (map length (series st a)) ?us"
  have A: "?A \<noteq> []" using assms by simp
  have m: "set ?cs \<subseteq> set ?A"
    using rng_choice_member[OF A] by blast
  show ?thesis
    apply (rule exI[where x = "fold (\<lambda>i. series_assign_masked (n_series st) i insert_at ?idxs ?cs)
              (unique ?idxs) (snd (rng_random r ?n ?st2))"])
    apply (rule exI[where x = ?us])
    apply (rule exI[where x = ?cs])
    apply (intro conjI)
    subgoal by simp
    subgoal by simp
    subgoal by (auto dest: rng_random_range)
    subgoal by (rule m)
    subgoal using assms
      by (simp add: with_insert_def Let_def series_copy_def case_rng_random rng_choice_Return)
    subgoal
      by (simp add: series_copy_def fold_series_assign_masked)
    done
qed

lemma with_insert_rows:
  assumes "charset \<noteq> []" and nul: "CHR 0x00 \<notin> set charset"
  shows "\<exists>out st'. with_insert charset r st a = Return out st'
     \<and> list_all2 (\<lambda>s t. length t = length s + 1 \<and>
             (\<exists>i c. i \<le> length s \<and> c \<in> set charset \<and> t = insert_at i [c] s))
          (series st a) (series st' out)"
proof -
  from with_insert_eq[OF assms(1), of st a r] obtain st' us cs where
    l: "length us = length (series st a)" "length cs = length (series st a)"
       "\<forall>u\<in>set us. 0 \<le> u \<and> u < 1" and
    m: "set cs \<subseteq> set (map (\<lambda>c. np_str [c]) charset)" and
    r: "with_insert charset r st a = Return (n_series st) st'" and
    s: "series st' (n_series st) =
       fold (\<lambda>i. assign_masked i insert_at
                   (map2 (\<lambda>l u. floor_index (l + 1) u) (map length (series st a)) us) cs)
         (unique (map2 (\<lambda>l u. floor_index (l + 1) u) (map length (series st a)) us))
         (series st a)"
    by blast
  have m': "set cs \<subseteq> (\<lambda>c. [c]) ` set charset" using m unfolding np_charset[OF nul] by simp
  have "list_all2 (\<lambda>s t. length t = length s + 1 \<and>
             (\<exists>i c. i \<le> length s \<and> c \<in> set charset \<and> t = insert_at i [c] s))
          (series st a) (series st' (n_series st))"
    unfolding s using l m' by (rule insert_rows)
  with r show ?thesis by blast
qed

subsection \<open>The four edit operations\<close>

lemma min_len_view_Nil_iff: "min_len_view k X = [] \<longleftrightarrow> list_all (\<lambda>s. length s < k) X"
proof
  assume "min_len_view k X = []"
  then show "list_all (\<lambda>s. length s < k) X"
    using min_len_view_empty[of k X] by (auto simp: list_all_iff)
next
  assume a: "list_all (\<lambda>s. length s < k) X"
  show "min_len_view k X = []"
  proof (rule ccontr)
    assume "min_len_view k X \<noteq> []"
    then obtain q s where "(q, s) \<in> set (min_len_view k X)"
      by (cases "min_len_view k X") auto
    then have "s \<in> set X" "k \<le> length s" by (auto simp: in_min_len_view)
    with a show False by (auto simp: list_all_iff)
  qed
qed

lemma with_insert_empty:
  assumes "series st a = []"
  shows "\<exists>st'. with_insert charset r st a = Return (n_series st) st' \<and> series st' (n_series st) = []"
  using assms
  by (simp add: with_insert_def Let_def series_copy_def case_rng_random rng_choice_Return unique_def)

lemma with_insert_Raise:
  "with_insert charset r st a = Raise e st' \<Longrightarrow> charset = []"
  using with_insert_eq[of charset st a r] by (cases "charset = []") auto

lemma with_substitute_Raise:
  assumes "with_substitute charset r st a = Raise e st'" and d: "distinct (row_labels st a)"
  shows "charset = []"
proof (rule ccontr)
  assume c: "charset \<noteq> []"
  show False
  proof (cases "min_len_view 1 (series st a) = []")
    case True
    then show False using assms(1) by (simp add: with_substitute_def)
  next
    case False
    from with_substitute_eq[OF False c d, of r] assms(1) show False by auto
  qed
qed

subsection \<open>The keyboard-typo corruptor\<close>

lemma kb_char_candidates_not_self: "c \<notin> set (kb_char_candidates c neighbors)"
  by (simp add: kb_char_candidates_def)

lemma kb_dict_fold:
  assumes "\<forall>c cands. d c = Some cands \<longrightarrow> cands \<noteq> [] \<and> c \<notin> set cands"
    and "fold (\<lambda>(cell, neighbors) d.
             case cell of
               None \<Rightarrow> d
             | Some kb_char \<Rightarrow>
                 if 0 < length (kb_char_candidates kb_char neighbors)
                 then d(kb_char \<mapsto> kb_char_candidates kb_char neighbors) else d)
       kb_cells d c = Some cands"
  shows "cands \<noteq> [] \<and> c \<notin> set cands"
  using assms
proof (induction kb_cells arbitrary: d)
  case Nil
  then show ?case by simp
next
  case (Cons cell kb_cells)
  obtain x neighbors where cell: "cell = (x, neighbors)" by (cases cell)
  let ?F = "\<lambda>(cell, neighbors) d.
             case cell of
               None \<Rightarrow> d
             | Some kb_char \<Rightarrow>
                 if 0 < length (kb_char_candidates kb_char neighbors)
                 then d(kb_char \<mapsto> kb_char_candidates kb_char neighbors) else d"
  have inv: "\<forall>c cands. ?F cell d c = Some cands \<longrightarrow> cands \<noteq> [] \<and> c \<notin> set cands"
    using Cons.prems(1) cell
    by (auto simp: kb_char_candidates_not_self split: option.splits if_splits)
  have "fold ?F kb_cells (?F cell d) c = Some cands" using Cons.prems(2) by simp
  with inv show ?case by (rule Cons.IH)
qed

lemma kb_dict_candidates:
  "kb_char_to_candidates_dict kb_cells c = Some cands \<Longrightarrow> cands \<noteq> [] \<and> c \<notin> set cands"
  unfolding kb_char_to_candidates_dict_def by (rule kb_dict_fold[of Map.empty]) simp_all

lemma typo_chars_fold:
  assumes "length idxs = length X" "length tc = length X"
  shows "length (fold (\<lambda>i tc. map (\<lambda>(j, s, old). if j = i then str_get i s else old)
                            (zip idxs (zip X tc))) is tc) = length X
    \<and> (\<forall>q<length X. fold (\<lambda>i tc. map (\<lambda>(j, s, old). if j = i then str_get i s else old)
                            (zip idxs (zip X tc))) is tc ! q =
          (if idxs ! q \<in> set is then str_get (idxs ! q) (X ! q) else tc ! q))"
  using assms
proof (induction "is" arbitrary: tc)
  case Nil
  then show ?case by simp
next
  case (Cons i "is")
  let ?tc = "map (\<lambda>(j, s, old). if j = i then str_get i s else old) (zip idxs (zip X tc))"
  have l: "length ?tc = length X" using Cons.prems by simp
  have n: "\<And>q. q < length X \<Longrightarrow> ?tc ! q = (if idxs ! q = i then str_get i (X ! q) else tc ! q)"
    using Cons.prems by simp
  from Cons.IH[OF Cons.prems(1) l] show ?case using n by auto
qed

lemma length_put_mask [simp]: "length (put_mask ms xs vs) = length xs"
  by (induction ms xs vs rule: put_mask.induct) simp_all

lemma nth_put_mask:
  "q < length xs \<Longrightarrow>
   put_mask ms xs vs ! q = xs ! q \<or> (q < length ms \<and> ms ! q \<and> put_mask ms xs vs ! q \<in> set vs)"
proof (induction ms xs vs arbitrary: q rule: put_mask.induct)
  case (1 ms x xs v vs)
  then show ?case by (cases q) auto
next
  case (2 ms x xs vs)
  then show ?case by (cases q) auto
qed simp_all

lemma draw_replacements_Return:
  assumes d: "\<forall>c cands. d c = Some cands \<longrightarrow> cands \<noteq> []"
    and len: "length repl = length tc"
    and ok: "\<forall>q<length tc. repl ! q = None \<or>
               (\<exists>c cands x. tc ! q = Some c \<and> d c = Some cands \<and> x \<in> set cands \<and> repl ! q = Some x)"
  shows "\<exists>repl' st'. draw_replacements d r tc chars repl st = Return repl' st'
     \<and> length repl' = length tc
     \<and> (\<forall>q<length tc. repl' ! q = None \<or>
               (\<exists>c cands x. tc ! q = Some c \<and> d c = Some cands \<and> x \<in> set cands \<and> repl' ! q = Some x))
     \<and> series st' = series st \<and> n_series st' = n_series st"
  using len ok
proof (induction chars arbitrary: repl st)
  case Nil
  then show ?case by simp
next
  case (Cons ch chars)
  show ?case
  proof (cases ch)
    case None
    with Cons.IH[OF Cons.prems] show ?thesis by simp
  next
    case (Some c)
    show ?thesis
    proof (cases "d c")
      case None
      with Cons.IH[OF Cons.prems] Some show ?thesis by simp
    next
      case (Some cands)
      let ?msk = "map (\<lambda>t. t = Some c) tc"
      let ?n = "length (filter (\<lambda>b. b) ?msk)"
      let ?rand = "map (\<lambda>u. cands ! floor_index (length cands) u) (fst (rng_random r ?n st))"
      let ?st = "snd (rng_random r ?n st)"
      let ?repl = "put_mask ?msk repl (map Some ?rand)"
      have ne: "cands \<noteq> []" using d Some by blast
      have ch: "rng_choice r cands ?n st = Return ?rand ?st"
        using ne by (simp add: rng_choice_Return)
      have mem: "\<And>x. x \<in> set ?rand \<Longrightarrow> x \<in> set cands"
        using rng_choice_member[OF ne] by blast
      have l: "length ?repl = length tc" using Cons.prems by simp
      have o: "\<forall>q<length tc. ?repl ! q = None \<or>
               (\<exists>c cands x. tc ! q = Some c \<and> d c = Some cands \<and> x \<in> set cands \<and> ?repl ! q = Some x)"
      proof (intro allI impI)
        fix q assume q: "q < length tc"
        then have "q < length repl" using Cons.prems by simp
        from nth_put_mask[OF this, of ?msk "map Some ?rand"]
        consider "?repl ! q = repl ! q"
          | "q < length ?msk" "?msk ! q" "?repl ! q \<in> set (map Some ?rand)" by blast
        then show "?repl ! q = None \<or>
               (\<exists>c cands x. tc ! q = Some c \<and> d c = Some cands \<and> x \<in> set cands \<and> ?repl ! q = Some x)"
        proof cases
          case 1
          then show ?thesis using Cons.prems(2) q by simp
        next
          case 2
          then obtain x where x: "x \<in> set ?rand" "?repl ! q = Some x" by auto
          have "tc ! q = Some c" using 2 q by simp
          with x mem[OF x(1)] Some show ?thesis by blast
        qed
      qed
      from Cons.IH[OF l o, of ?st] \<open>ch = Some c\<close> Some ch show ?thesis
        by (simp add: Let_def)
    qed
  qed
qed

lemma fold_assign_masked_unique:
  assumes "length idxs = length ys" "length cs = length ys"
  shows "length (fold (\<lambda>i. assign_masked i f idxs cs) (unique idxs) ys) = length ys"
    and "q < length ys \<Longrightarrow>
         fold (\<lambda>i. assign_masked i f idxs cs) (unique idxs) ys ! q = f (idxs ! q) (cs ! q) (ys ! q)"
proof -
  have f: "length (fold (\<lambda>i. assign_masked i f idxs cs) (unique idxs) ys) = length ys
    \<and> (\<forall>q<length ys. fold (\<lambda>i. assign_masked i f idxs cs) (unique idxs) ys ! q =
          (if idxs ! q \<in> set (unique idxs) then f (idxs ! q) (cs ! q) (ys ! q) else ys ! q))"
    by (rule fold_assign_masked) (simp_all add: assms)
  then show "length (fold (\<lambda>i. assign_masked i f idxs cs) (unique idxs) ys) = length ys"
    by blast
  assume q: "q < length ys"
  then have "idxs ! q \<in> set idxs" using assms by (simp only: nth_mem)
  then have "idxs ! q \<in> set (unique idxs)" by (simp only: set_unique)
  with f q show "fold (\<lambda>i. assign_masked i f idxs cs) (unique idxs) ys ! q =
      f (idxs ! q) (cs ! q) (ys ! q)"
    by presburger
qed

subsection \<open>The phonetic engine\<close>

lemma validate_flags_Inr:
  "validate_flags cell = Inr fs \<Longrightarrow> set fs \<subseteq> {CHR ''^'', CHR ''$'', CHR ''_''}"
  by (auto simp: validate_flags_def all_flags_def find_None_iff
      split: option.splits if_splits)

lemma parse_rules_flags:
  "parse_rules df = Inr rules \<Longrightarrow> rule \<in> set rules \<Longrightarrow>
   set (flags rule) \<subseteq> {CHR ''^'', CHR ''$'', CHR ''_''}"
proof (induction df arbitrary: rules)
  case Nil
  then show ?case by simp
next
  case (Cons row df)
  obtain source target cell where row: "row = (source, target, cell)" by (cases row)
  from Cons.prems(1) row obtain fs rest where
    fs: "validate_flags cell = Inr fs" and rest: "parse_rules df = Inr rest"
    and rules: "rules = \<lparr>pattern = source, replacement = target, flags = fs\<rparr> # rest"
    by (auto split: sum.splits)
  show ?case
  proof (cases "rule \<in> set rest")
    case True
    with Cons.IH[OF rest] show ?thesis .
  next
    case False
    with Cons.prems(2) rules have "flags rule = fs" by auto
    with validate_flags_Inr[OF fs] show ?thesis by simp
  qed
qed

lemma count_rules_fold:
  assumes "length prob = length X"
  shows "length (snd (fold (\<lambda>rule (rule_to_flag_dict, srs_str_sub_prob).
             let srs_str_flags = map (str_flags rule) X
             in (rule_to_flag_dict(rule \<mapsto> srs_str_flags),
                 map2 (\<lambda>f p. if f \<noteq> [] then p + 1 else p) srs_str_flags srs_str_sub_prob))
       rules (d, prob))) = length X
   \<and> (\<forall>rule. fst (fold (\<lambda>rule (rule_to_flag_dict, srs_str_sub_prob).
             let srs_str_flags = map (str_flags rule) X
             in (rule_to_flag_dict(rule \<mapsto> srs_str_flags),
                 map2 (\<lambda>f p. if f \<noteq> [] then p + 1 else p) srs_str_flags srs_str_sub_prob))
       rules (d, prob)) rule = (if rule \<in> set rules then Some (map (str_flags rule) X) else d rule))"
  using assms
proof (induction rules arbitrary: d prob)
  case Nil
  then show ?case by simp
next
  case (Cons r rules)
  let ?prob = "map2 (\<lambda>f p. if f \<noteq> [] then p + 1 else p) (map (str_flags r) X) prob"
  have l: "length ?prob = length X" using Cons.prems by simp
  from Cons.IH[OF l, of "d(r \<mapsto> map (str_flags r) X)"] show ?case
    by (auto simp: Let_def)
qed

lemma count_rules_props:
  "length (snd (count_rules rules X)) = length X"
  "rule \<in> set rules \<Longrightarrow> fst (count_rules rules X) rule = Some (map (str_flags rule) X)"
proof -
  have f: "length (replicate (length X) (0::rat)) = length X" by simp
  show "length (snd (count_rules rules X)) = length X"
    unfolding count_rules_def using count_rules_fold[OF f, of rules Map.empty] by blast
  assume "rule \<in> set rules"
  then show "fst (count_rules rules X) rule = Some (map (str_flags rule) X)"
    unfolding count_rules_def using count_rules_fold[OF f, of rules Map.empty] by presburger
qed

lemma length_swap [simp]: "length (swap i j xs) = length xs"
  by (simp add: swap_def)

lemma set_swap: "i < length xs \<Longrightarrow> j < length xs \<Longrightarrow> set (swap i j xs) = set xs"
proof -
  assume a: "i < length xs" "j < length xs"
  have "mset (swap i j xs) = mset xs"
    using a by (simp add: swap_def mset_swap)
  then show ?thesis by (metis set_mset_mset)
qed

lemma shuffle_fold:
  assumes "\<forall>(i, u)\<in>set ius. i < length xs \<and> floor_index (i + 1) u \<le> i"
  shows "set (fold (\<lambda>(i, u). swap i (floor_index (i + 1) u)) ius xs) = set xs"
  using assms
proof (induction ius arbitrary: xs)
  case Nil
  then show ?case by simp
next
  case (Cons iu ius)
  obtain i u where iu: "iu = (i, u)" by (cases iu)
  have r: "i < length xs" "floor_index (i + 1) u \<le> i" using Cons.prems iu by auto
  have s: "set (swap i (floor_index (i + 1) u) xs) = set xs"
    using r by (intro set_swap) auto
  have "set (fold (\<lambda>(i, u). swap i (floor_index (i + 1) u)) ius (swap i (floor_index (i + 1) u) xs))
      = set (swap i (floor_index (i + 1) u) xs)"
    by (rule Cons.IH) (use Cons.prems in auto)
  with s iu show ?case by simp
qed

lemma rng_shuffle_set: "set (fst (rng_shuffle r xs st)) = set xs"
proof -
  let ?us = "fst (rng_random r (length xs - 1) st)"
  have "\<forall>(i, u)\<in>set (zip (rev [1..<length xs]) ?us). i < length xs \<and> floor_index (i + 1) u \<le> i"
  proof (clarify)
    fix i u assume "(i, u) \<in> set (zip (rev [1..<length xs]) ?us)"
    then have i: "i \<in> set (rev [1..<length xs])" and u: "u \<in> set ?us"
      by (auto dest: set_zip_leftD set_zip_rightD)
    have "floor_index (i + 1) u < i + 1"
      using rng_random_range[OF u] by (auto intro!: floor_index_less)
    with i show "i < length xs \<and> floor_index (i + 1) u \<le> i" by auto
  qed
  then have "set (fold (\<lambda>(i, u). swap i (floor_index (i + 1) u)) (zip (rev [1..<length xs]) ?us) xs) = set xs"
    by (rule shuffle_fold)
  then show ?thesis by (simp add: rng_shuffle_def case_rng_random)
qed

lemma rng_shuffle_store [simp]:
  "series (snd (rng_shuffle r xs st)) = series st"
  "n_series (snd (rng_shuffle r xs st)) = n_series st"
  by (simp_all add: rng_shuffle_def case_rng_random)

definition once_modified ::
  "regex_sub \<Rightarrow> phonetic_replacement_rule list \<Rightarrow> string list \<Rightarrow> string list \<Rightarrow> bool list \<Rightarrow> bool" where
  "once_modified re_sub rules X Y modified \<longleftrightarrow>
     length Y = length X \<and> length modified = length X \<and>
     (\<forall>q<length X.
        if modified ! q
        then (\<exists>rule\<in>set rules. \<exists>flag\<in>set (flags rule). Y ! q = flag_sub re_sub rule flag (X ! q))
        else Y ! q = X ! q)"

lemma apply_flags_Return:
  assumes valid: "set fs \<subseteq> {CHR ''^'', CHR ''$'', CHR ''_''}"
    and sub: "set fs \<subseteq> set (flags rule)"
    and mem: "rule \<in> set rules"
    and lc: "length cand = length X"
    and inv: "once_modified re_sub rules X (series st out) modified"
  shows "\<exists>modified' st'. apply_flags re_sub rule cand fs out modified st = Return modified' st'
     \<and> once_modified re_sub rules X (series st' out) modified'
     \<and> (\<forall>b. b \<noteq> out \<longrightarrow> series st' b = series st b) \<and> n_series st' = n_series st"
  using valid sub inv
proof (induction fs arbitrary: modified st)
  case Nil
  then show ?case by simp
next
  case (Cons flag fs)
  let ?Y = "series st out"
  let ?cur = "map (flag_mask flag (pattern rule)) ?Y"
  let ?cc = "map (\<lambda>(c, f, m). c \<and> f \<and> \<not> m) (zip cand (zip ?cur modified))"
  have fl: "\<not> (flag \<noteq> CHR ''^'' \<and> flag \<noteq> CHR ''$'' \<and> flag \<noteq> CHR ''_'')"
    using Cons.prems(1) by auto
  have v: "set fs \<subseteq> {CHR ''^'', CHR ''$'', CHR ''_''}" "set fs \<subseteq> set (flags rule)"
    "flag \<in> set (flags rule)"
    using Cons.prems by auto
  have ly: "length ?Y = length X" and lm: "length modified = length X"
    using Cons.prems(3) by (auto simp: once_modified_def)
  have lcc: "length ?cc = length X" using lc ly lm by simp
  have ncc: "\<And>q. q < length X \<Longrightarrow> ?cc ! q = (cand ! q \<and> ?cur ! q \<and> \<not> modified ! q)"
    using lc ly lm by simp
  show ?case
  proof (cases "length (filter (\<lambda>b. b) ?cc) = 0")
    case True
    have "apply_flags re_sub rule cand (flag # fs) out modified st =
          apply_flags re_sub rule cand fs out modified st"
      by (subst apply_flags.simps) (simp only: fl True Let_def if_False if_True refl)
    with Cons.IH[OF v(1) v(2) Cons.prems(3)] show ?thesis by simp
  next
    case False
    let ?st = "series_map_masked out ?cc (flag_sub re_sub rule flag) st"
    let ?m = "map2 (\<or>) modified ?cc"
    have Y': "series ?st out = map2 (\<lambda>b s. if b then flag_sub re_sub rule flag s else s) ?cc ?Y"
      by (simp add: series_map_masked_def)
    have inv': "once_modified re_sub rules X (series ?st out) ?m"
      unfolding once_modified_def
    proof (intro conjI allI impI)
      show "length (series ?st out) = length X" using Y' lcc ly by simp
      show "length ?m = length X" using lcc lm by simp
      fix q assume q: "q < length X"
      have yq: "series ?st out ! q = (if ?cc ! q then flag_sub re_sub rule flag (?Y ! q) else ?Y ! q)"
        using Y' q lcc ly by simp
      have mq: "?m ! q = (modified ! q \<or> ?cc ! q)" using q lcc lm by simp
      have old: "if modified ! q
        then (\<exists>rule\<in>set rules. \<exists>flag\<in>set (flags rule). ?Y ! q = flag_sub re_sub rule flag (X ! q))
        else ?Y ! q = X ! q"
        using Cons.prems(3) q by (simp add: once_modified_def)
      show "if ?m ! q
        then (\<exists>rule\<in>set rules. \<exists>flag\<in>set (flags rule).
                series ?st out ! q = flag_sub re_sub rule flag (X ! q))
        else series ?st out ! q = X ! q"
      proof (cases "?cc ! q")
        case True
        then have "\<not> modified ! q" using ncc[OF q] by simp
        with old have "?Y ! q = X ! q" by simp
        with True yq have "series ?st out ! q = flag_sub re_sub rule flag (X ! q)" by simp
        with mem v(3) have "\<exists>rule\<in>set rules. \<exists>flag\<in>set (flags rule).
                series ?st out ! q = flag_sub re_sub rule flag (X ! q)" by blast
        with mq True show ?thesis by simp
      next
        case False
        with yq mq old show ?thesis by simp
      qed
    qed
    have fr: "\<forall>b. b \<noteq> out \<longrightarrow> series ?st b = series st b" "n_series ?st = n_series st"
      by (simp_all add: series_map_masked_def)
    from Cons.IH[OF v(1) v(2) inv'] obtain modified' st' where
      r: "apply_flags re_sub rule cand fs out ?m ?st = Return modified' st'"
      and i: "once_modified re_sub rules X (series st' out) modified'"
      and f: "\<forall>b. b \<noteq> out \<longrightarrow> series st' b = series ?st b" "n_series st' = n_series ?st"
      by blast
    have "apply_flags re_sub rule cand (flag # fs) out modified st =
          apply_flags re_sub rule cand fs out ?m ?st"
      by (subst apply_flags.simps) (simp only: fl False Let_def if_False if_True refl)
    with r have "apply_flags re_sub rule cand (flag # fs) out modified st = Return modified' st'"
      by simp
    with i f fr show ?thesis by auto
  qed
qed

lemma apply_rules_Return:
  assumes sub: "set rs \<subseteq> set rules"
    and valid: "\<forall>rule\<in>set rules. set (flags rule) \<subseteq> {CHR ''^'', CHR ''$'', CHR ''_''}"
    and dict: "\<forall>rule\<in>set rs. \<exists>fl. d rule = Some fl \<and> length fl = length X"
    and lp: "length prob = length X"
    and inv: "once_modified re_sub rules X (series st out) modified"
  shows "\<exists>modified' st'. apply_rules re_sub r d prob rs out modified st = Return modified' st'
     \<and> once_modified re_sub rules X (series st' out) modified'
     \<and> (\<forall>b. b \<noteq> out \<longrightarrow> series st' b = series st b) \<and> n_series st' = n_series st"
  using sub dict inv
proof (induction rs arbitrary: modified st)
  case Nil
  then show ?case by simp
next
  case (Cons rule rs)
  let ?rand = "fst (rng_random r (length prob) st)"
  let ?st1 = "snd (rng_random r (length prob) st)"
  from Cons.prems(2) obtain fl where fl: "d rule = Some fl" "length fl = length X" by auto
  let ?cand = "map (\<lambda>(u, p, f). u < p \<and> f \<noteq> []) (zip ?rand (zip prob fl))"
  let ?fs = "fst (rng_shuffle r (flags rule) ?st1)"
  let ?st2 = "snd (rng_shuffle r (flags rule) ?st1)"
  have mem: "rule \<in> set rules" using Cons.prems(1) by simp
  have lc: "length ?cand = length X" using lp fl by simp
  have sfs: "set ?fs = set (flags rule)" by (rule rng_shuffle_set)
  have v: "set ?fs \<subseteq> {CHR ''^'', CHR ''$'', CHR ''_''}" "set ?fs \<subseteq> set (flags rule)"
    using sfs valid mem by auto
  have inv2: "once_modified re_sub rules X (series ?st2 out) modified"
    using Cons.prems(3) by simp
  from apply_flags_Return[OF v mem lc inv2] obtain m3 st3 where
    a: "apply_flags re_sub rule ?cand ?fs out modified ?st2 = Return m3 st3"
    and i3: "once_modified re_sub rules X (series st3 out) m3"
    and f3: "\<forall>b. b \<noteq> out \<longrightarrow> series st3 b = series ?st2 b" "n_series st3 = n_series ?st2"
    by blast
  have s: "set rs \<subseteq> set rules" "\<forall>rule\<in>set rs. \<exists>fl. d rule = Some fl \<and> length fl = length X"
    using Cons.prems by auto
  from Cons.IH[OF s i3] obtain m4 st4 where
    r4: "apply_rules re_sub r d prob rs out m3 st3 = Return m4 st4"
    and i4: "once_modified re_sub rules X (series st4 out) m4"
    and f4: "\<forall>b. b \<noteq> out \<longrightarrow> series st4 b = series st3 b" "n_series st4 = n_series st3"
    by blast
  have "apply_rules re_sub r d prob (rule # rs) out modified st = Return m4 st4"
    using fl a r4 by (simp add: case_rng_random case_prod_beta Let_def)
  with i4 f4 f3 show ?case by simp
qed

lemma phonetic_corrupt_rows:
  assumes valid: "\<forall>rule\<in>set rules. set (flags rule) \<subseteq> {CHR ''^'', CHR ''$'', CHR ''_''}"
  shows "\<exists>st'. phonetic_corrupt re_sub rules r st a = Return (n_series st) st'
     \<and> list_all2 (\<lambda>s t. t = s \<or>
            (\<exists>rule\<in>set rules. \<exists>flag\<in>set (flags rule). t = flag_sub re_sub rule flag s))
          (series st a) (series st' (n_series st))
     \<and> (\<forall>b. b \<noteq> n_series st \<longrightarrow> series st' b = series st b)"
proof -
  let ?X = "series st a"
  let ?out = "n_series st"
  let ?st1 = "snd (series_copy st a)"
  let ?d = "fst (count_rules rules ?X)"
  let ?prob = "map (\<lambda>p. if p \<noteq> 0 then 1 / p else p) (snd (count_rules rules ?X))"
  have X1: "series ?st1 ?out = ?X" by (simp add: series_copy_def)
  have inv: "once_modified re_sub rules ?X (series ?st1 ?out) (replicate (length ?X) False)"
    using X1 by (simp add: once_modified_def)
  have dict: "\<forall>rule\<in>set rules. \<exists>fl. ?d rule = Some fl \<and> length fl = length ?X"
    by (simp add: count_rules_props)
  have lp: "length ?prob = length ?X" by (simp add: count_rules_props)
  from apply_rules_Return[OF subset_refl valid dict lp inv, of r] obtain m st2 where
    r2: "apply_rules re_sub r ?d ?prob rules ?out (replicate (length ?X) False) ?st1 = Return m st2"
    and i2: "once_modified re_sub rules ?X (series st2 ?out) m"
    and f2: "\<forall>b. b \<noteq> ?out \<longrightarrow> series st2 b = series ?st1 b"
    by blast
  have res: "phonetic_corrupt re_sub rules r st a = Return ?out st2"
    using r2 X1 by (simp add: phonetic_corrupt_def series_copy_def case_prod_beta Let_def)
  have "list_all2 (\<lambda>s t. t = s \<or>
            (\<exists>rule\<in>set rules. \<exists>flag\<in>set (flags rule). t = flag_sub re_sub rule flag s))
          ?X (series st2 ?out)"
    unfolding list_all2_conv_all_nth
  proof (intro conjI allI impI)
    show "length ?X = length (series st2 ?out)" using i2 by (simp add: once_modified_def)
    fix q assume q: "q < length ?X"
    from i2 q have "if m ! q
        then (\<exists>rule\<in>set rules. \<exists>flag\<in>set (flags rule).
                 series st2 ?out ! q = flag_sub re_sub rule flag (?X ! q))
        else series st2 ?out ! q = ?X ! q"
      by (simp add: once_modified_def)
    then show "series st2 ?out ! q = ?X ! q \<or>
      (\<exists>rule\<in>set rules. \<exists>flag\<in>set (flags rule).
                 series st2 ?out ! q = flag_sub re_sub rule flag (?X ! q))"
      by (cases "m ! q") simp_all
  qed
  moreover have "\<forall>b. b \<noteq> ?out \<longrightarrow> series st2 b = series st b"
    using f2 by (simp add: series_copy_def)
  ultimately show ?thesis using res by blast
qed

subsection \<open>Running the examples\<close>

lemmas run_defs = rng_random_def uniform_def[abs_def] floor_index_def rng_choice_def
  series_copy_def series_new_def update_in_place_def row_labels_def
  example_store_def example_rng_def Let_def unique_def

subsection \<open>The frame of a call\<close>

lemma store_of_simps [simp]:
  "store_of (Return x st) = st" "store_of (Raise e st) = st"
  by (simp_all add: store_of_def)

lemma unchanged_below_refl [simp]: "unchanged_below n st st"
  by (simp add: unchanged_below_def)

lemma unchanged_below_trans:
  "unchanged_below n st st1 \<Longrightarrow> unchanged_below n st1 st2 \<Longrightarrow> unchanged_below n st st2"
  by (auto simp: unchanged_below_def)

lemma unchanged_below_mono:
  "unchanged_below m st st' \<Longrightarrow> n \<le> m \<Longrightarrow> unchanged_below n st st'"
  by (auto simp: unchanged_below_def)

lemma unchanged_rng_random [simp]: "unchanged_below n st (snd (rng_random r k st))"
  by (simp add: unchanged_below_def)

lemma unchanged_rng_shuffle [simp]: "unchanged_below n st (snd (rng_shuffle r xs st))"
  by (simp add: unchanged_below_def)

lemma unchanged_rng_choice [simp]: "unchanged_below n st (store_of (rng_choice r a k st))"
  by (simp add: rng_choice_def case_rng_random)

lemma unchanged_rng_choice_p [simp]: "unchanged_below n st (store_of (rng_choice_p r a p k st))"
  by (simp add: rng_choice_p_def case_rng_random)

lemma unchanged_rng_spawn [simp]: "unchanged_below n st (snd (rng_spawn r k st))"
  by (simp add: rng_spawn_def unchanged_below_def Let_def)

lemma unchanged_series_copy: "n \<le> n_series st \<Longrightarrow> unchanged_below n st (snd (series_copy st a))"
  by (simp add: series_copy_def unchanged_below_def)

lemma unchanged_series_new:
  "n \<le> n_series st \<Longrightarrow> unchanged_below n st (snd (series_new idx vals st))"
  by (simp add: series_new_def unchanged_below_def)

lemma unchanged_series_select:
  "n \<le> n_series st \<Longrightarrow> unchanged_below n st (snd (series_select idx msk vals st))"
  by (simp add: series_select_def unchanged_series_new)

lemma series_select_fst [simp]:
  "fst (series_select idx msk vals st) = n_series st"
  "n_series (snd (series_select idx msk vals st)) = Suc (n_series st)"
  by (simp_all add: series_select_def series_new_def)

lemma unchanged_write: "n \<le> out \<Longrightarrow> unchanged_below n st (st\<lparr>series := (series st)(out := vals)\<rparr>)"
  by (simp add: unchanged_below_def)

lemma store_of_case:
  "store_of (case res of Return x s \<Rightarrow> Return (f x) s | Raise e s \<Rightarrow> Raise e s) = store_of res"
  by (cases res) simp_all

lemma update_in_place_frame:
  "b \<noteq> out \<Longrightarrow> series (store_of (update_in_place out other st)) b = series st b"
  "n_series (store_of (update_in_place out other st)) = n_series st"
  by (simp_all add: update_in_place_def Let_def)

lemma unchanged_update_in_place:
  "n \<le> out \<Longrightarrow> unchanged_below n st (store_of (update_in_place out other st))"
  by (simp add: unchanged_below_def update_in_place_frame)

lemma update_each_frame:
  "b < out \<Longrightarrow> series (store_of (update_each out F is st)) b = series st b"
  "n_series (store_of (update_each out F is st)) = n_series st"
proof (induction "is" arbitrary: st)
  case Nil
  {
    case 1
    then show ?case by simp
  next
    case 2
    then show ?case by simp
  }
next
  case (Cons i "is")
  {
    case 1
    show ?case
    proof (cases "update_in_place out (F i) st")
      case (Return x st1)
      then have "series st1 b = series st b" "store_of (update_each out F (i # is) st)
          = store_of (update_each out F is st1)"
        using update_in_place_frame(1)[of b out "F i" st] 1 by simp_all
      then show ?thesis using Cons.IH(1)[OF 1, of st1] by simp
    next
      case (Raise e st1)
      then show ?thesis using update_in_place_frame(1)[of b out "F i" st] 1 by simp
    qed
  next
    case 2
    show ?case
    proof (cases "update_in_place out (F i) st")
      case (Return x st1)
      then have "n_series st1 = n_series st" "store_of (update_each out F (i # is) st)
          = store_of (update_each out F is st1)"
        using update_in_place_frame(2)[of out "F i" st] by simp_all
      then show ?thesis using Cons.IH(2)[of st1] by simp
    next
      case (Raise e st1)
      then show ?thesis using update_in_place_frame(2)[of out "F i" st] by simp
    qed
  }
qed

lemma unchanged_update_each:
  "n \<le> out \<Longrightarrow> unchanged_below n st (store_of (update_each out F is st))"
  by (simp add: unchanged_below_def update_each_frame)

lemma unchanged_series_fill: "n \<le> out \<Longrightarrow> unchanged_below n st (series_fill out msk v st)"
  by (simp add: series_fill_def unchanged_write)

lemma unchanged_series_map_masked:
  "n \<le> out \<Longrightarrow> unchanged_below n st (series_map_masked out msk f st)"
  by (simp add: series_map_masked_def unchanged_write)

lemma unchanged_fold_assign_masked:
  "n \<le> out \<Longrightarrow> unchanged_below n st (fold (\<lambda>i. series_assign_masked out i f idxs cs) is st)"
  by (simp add: fold_series_assign_masked unchanged_write)

lemma keeps_series_noop: "keeps_series with_noop"
  by (simp add: keeps_series_def with_noop_def)

lemma keeps_series_missing:
  "keeps_series (corrupt_all_from_value v)"
  "keeps_series (corrupt_only_empty_from_value v)"
  "keeps_series (corrupt_only_blank_from_value v)"
  by (simp_all add: keeps_series_def corrupt_all_from_value_def corrupt_only_empty_from_value_def
      corrupt_only_blank_from_value_def series_new_def series_copy_def series_fill_def
      unchanged_below_def)

lemma keeps_series_delete: "keeps_series (with_delete r)"
  by (simp add: keeps_series_def with_delete_def Let_def series_copy_def case_rng_random
      store_of_case update_each_frame unchanged_below_def)

lemma keeps_series_transpose: "keeps_series (with_transpose r)"
  by (simp add: keeps_series_def with_transpose_def Let_def series_copy_def case_rng_random
      store_of_case update_each_frame unchanged_below_def)

lemma keeps_series_substitute: "keeps_series (with_substitute charset r)"
  by (simp add: keeps_series_def with_substitute_def Let_def series_copy_def case_rng_random
      rng_choice_def store_of_case update_each_frame unchanged_below_def)

lemma keeps_series_insert: "keeps_series (with_insert charset r)"
  by (simp add: keeps_series_def with_insert_def Let_def series_copy_def case_rng_random
      rng_choice_def fold_series_assign_masked unchanged_below_def)

lemma unchanged_rng_choice_Return:
  "rng_choice r a k st = Return x st' \<Longrightarrow> unchanged_below n st st'"
  using unchanged_rng_choice[of n st r a k] by simp

lemma unchanged_draw_replacements:
  "unchanged_below n st (store_of (draw_replacements d r tc chars repl st))"
proof (induction d r tc chars repl st rule: draw_replacements.induct)
  case (1 d r srs_typo_chars srs_repl_chars st)
  then show ?case by simp
next
  case (2 d r srs_typo_chars chars srs_repl_chars st)
  then show ?case by simp
next
  case (3 d r srs_typo_chars c chars srs_repl_chars st)
  show ?case
  proof (cases "d c")
    case None
    with 3 show ?thesis by simp
  next
    case (Some cands)
    let ?msk = "map (\<lambda>t. t = Some c) srs_typo_chars"
    let ?n = "length (filter (\<lambda>b. b) ?msk)"
    show ?thesis
    proof (cases "rng_choice r cands ?n st")
      case (Raise e st')
      have "unchanged_below n st (store_of (rng_choice r cands ?n st))" by simp
      with Raise Some show ?thesis by (simp add: Let_def)
    next
      case (Return rand st')
      have u: "unchanged_below n st st'"
        using Return by (rule unchanged_rng_choice_Return)
      have "unchanged_below n st' (store_of (draw_replacements d r srs_typo_chars chars
                   (put_mask ?msk srs_repl_chars (map Some rand)) st'))"
        using 3(2)[OF Some refl refl Return] .
      with u have "unchanged_below n st (store_of (draw_replacements d r srs_typo_chars chars
                   (put_mask ?msk srs_repl_chars (map Some rand)) st'))"
        by (rule unchanged_below_trans)
      with Return Some show ?thesis by (simp add: Let_def)
    qed
  qed
qed

lemma keeps_series_keymap: "keeps_series (with_cldr_keymap_file kb_cells r)"
  unfolding keeps_series_def
proof (intro allI impI)
  fix st :: store and srs_in assume "srs_in < n_series st"
  let ?n = "n_series st"
  let ?X = "series st srs_in"
  let ?st1 = "snd (series_copy st srs_in)"
  let ?st2 = "snd (rng_random r (length ?X) ?st1)"
  let ?idxs = "map2 floor_index (map length ?X) (fst (rng_random r (length ?X) ?st1))"
  let ?tc = "fold (\<lambda>i tc. map (\<lambda>(j, s, old). if j = i then str_get i s else old)
                            (zip ?idxs (zip ?X tc)))
              (unique ?idxs) (replicate (length ?X) None)"
  let ?dr = "draw_replacements (kb_char_to_candidates_dict kb_cells) r ?tc (unique ?tc)
               (replicate (length ?X) None) ?st2"
  have u2: "unchanged_below ?n st ?st2"
    by (rule unchanged_below_trans[OF unchanged_series_copy[of ?n st srs_in]]) simp_all
  have u3: "unchanged_below ?n ?st2 (store_of ?dr)"
    by (rule unchanged_draw_replacements)
  have eq: "with_cldr_keymap_file kb_cells r st srs_in =
      (case ?dr of
         Raise e st3 \<Rightarrow> Raise e st3
       | Return repl st3 \<Rightarrow>
           Return ?n (fold (\<lambda>i. series_assign_masked ?n i replace_at ?idxs repl)
                        (unique ?idxs) st3))"
    by (simp add: with_cldr_keymap_file_def Let_def series_copy_def case_rng_random
        cong: result.case_cong)
  show "unchanged_below ?n st (store_of (with_cldr_keymap_file kb_cells r st srs_in))"
  proof (cases ?dr)
    case (Raise e st3)
    with u3 have "unchanged_below ?n ?st2 st3" by simp
    with u2 have "unchanged_below ?n st st3" by (rule unchanged_below_trans)
    then show ?thesis unfolding eq Raise by simp
  next
    case (Return repl st3)
    with u3 have "unchanged_below ?n ?st2 st3" by simp
    with u2 have "unchanged_below ?n st st3" by (rule unchanged_below_trans)
    moreover have "unchanged_below ?n st3
        (fold (\<lambda>i. series_assign_masked ?n i replace_at ?idxs repl) (unique ?idxs) st3)"
      by (rule unchanged_fold_assign_masked) simp
    ultimately have "unchanged_below ?n st
        (fold (\<lambda>i. series_assign_masked ?n i replace_at ?idxs repl) (unique ?idxs) st3)"
      by (rule unchanged_below_trans)
    then show ?thesis unfolding eq Return by simp
  qed
qed

lemma unchanged_apply_flags:
  "n \<le> out \<Longrightarrow>
   unchanged_below n st (store_of (apply_flags re_sub rule cand fs out modified st))"
proof (induction fs arbitrary: modified st)
  case Nil
  then show ?case by simp
next
  case (Cons flag fs)
  let ?cc = "map (\<lambda>(c, f, m). c \<and> f \<and> \<not> m)
               (zip cand (zip (map (flag_mask flag (pattern rule)) (series st out)) modified))"
  let ?st = "series_map_masked out ?cc (flag_sub re_sub rule flag) st"
  have a: "unchanged_below n st (store_of (apply_flags re_sub rule cand fs out modified st))"
    by (rule Cons.IH[OF Cons.prems])
  have "unchanged_below n st ?st"
    by (rule unchanged_series_map_masked[OF Cons.prems])
  moreover have "unchanged_below n ?st
      (store_of (apply_flags re_sub rule cand fs out (map2 (\<or>) modified ?cc) ?st))"
    by (rule Cons.IH[OF Cons.prems])
  ultimately have b: "unchanged_below n st
      (store_of (apply_flags re_sub rule cand fs out (map2 (\<or>) modified ?cc) ?st))"
    by (rule unchanged_below_trans)
  show ?case
  proof (cases "flag \<noteq> CHR ''^'' \<and> flag \<noteq> CHR ''$'' \<and> flag \<noteq> CHR ''_''")
    case True
    have "apply_flags re_sub rule cand (flag # fs) out modified st =
        Raise (ValueError (''invalid state: unknown flag '' @ [flag])) st"
      by (subst apply_flags.simps) (use True in simp)
    then show ?thesis by simp
  next
    case fl: False
    show ?thesis
    proof (cases "length (filter (\<lambda>b. b) ?cc) = 0")
      case True
      have "apply_flags re_sub rule cand (flag # fs) out modified st =
          apply_flags re_sub rule cand fs out modified st"
        by (subst apply_flags.simps) (simp only: fl True Let_def if_False if_True refl)
      with a show ?thesis by simp
    next
      case False
      have "apply_flags re_sub rule cand (flag # fs) out modified st =
          apply_flags re_sub rule cand fs out (map2 (\<or>) modified ?cc) ?st"
        by (subst apply_flags.simps) (simp only: fl False Let_def if_False if_True refl)
      with b show ?thesis by simp
    qed
  qed
qed

lemma unchanged_apply_rules:
  "n \<le> out \<Longrightarrow>
   unchanged_below n st (store_of (apply_rules re_sub r d prob rules out modified st))"
proof (induction rules arbitrary: modified st)
  case Nil
  then show ?case by simp
next
  case (Cons rule rules)
  let ?rand = "fst (rng_random r (length prob) st)"
  let ?st1 = "snd (rng_random r (length prob) st)"
  have u1: "unchanged_below n st ?st1" by simp
  show ?case
  proof (cases "d rule")
    case None
    with u1 show ?thesis by (simp add: case_rng_random)
  next
    case (Some fl)
    let ?cand = "map (\<lambda>(u, p, f). u < p \<and> f \<noteq> []) (zip ?rand (zip prob fl))"
    let ?fs = "fst (rng_shuffle r (flags rule) ?st1)"
    let ?st2 = "snd (rng_shuffle r (flags rule) ?st1)"
    let ?af = "apply_flags re_sub rule ?cand ?fs out modified ?st2"
    have u2: "unchanged_below n st ?st2"
      by (rule unchanged_below_trans[OF u1]) simp
    have u3: "unchanged_below n st (store_of ?af)"
      by (rule unchanged_below_trans[OF u2 unchanged_apply_flags[OF Cons.prems]])
    have eq: "apply_rules re_sub r d prob (rule # rules) out modified st =
        (case ?af of Raise e st3 \<Rightarrow> Raise e st3
         | Return m st3 \<Rightarrow> apply_rules re_sub r d prob rules out m st3)"
      using Some by (simp add: case_rng_random case_prod_beta Let_def)
    show ?thesis
    proof (cases ?af)
      case (Raise e st3)
      with u3 show ?thesis unfolding eq by simp
    next
      case (Return m st3)
      with u3 have "unchanged_below n st st3" by simp
      moreover have "unchanged_below n st3
          (store_of (apply_rules re_sub r d prob rules out m st3))"
        by (rule Cons.IH[OF Cons.prems])
      ultimately show ?thesis unfolding eq Return
        by (simp add: unchanged_below_trans)
    qed
  qed
qed

lemma keeps_series_phonetic: "keeps_series (phonetic_corrupt re_sub rules r)"
  unfolding keeps_series_def
proof (intro allI impI)
  fix st :: store and srs_in assume "srs_in < n_series st"
  let ?n = "n_series st"
  let ?st1 = "snd (series_copy st srs_in)"
  let ?X = "series st srs_in"
  let ?ar = "apply_rules re_sub r (fst (count_rules rules ?X))
               (map (\<lambda>p. if p \<noteq> 0 then 1 / p else p) (snd (count_rules rules ?X)))
               rules ?n (replicate (length ?X) False) ?st1"
  have u1: "unchanged_below ?n st ?st1"
    by (rule unchanged_series_copy) simp
  have u2: "unchanged_below ?n st (store_of ?ar)"
    by (rule unchanged_below_trans[OF u1 unchanged_apply_rules]) simp
  have eq: "phonetic_corrupt re_sub rules r st srs_in =
      (case ?ar of Raise e st2 \<Rightarrow> Raise e st2 | Return m st2 \<Rightarrow> Return ?n st2)"
    by (simp add: phonetic_corrupt_def series_copy_def case_prod_beta Let_def
        cong: result.case_cong)
  show "unchanged_below ?n st (store_of (phonetic_corrupt re_sub rules r st srs_in))"
    using u2 unfolding eq by (cases ?ar) simp_all
qed

lemma unchanged_below_n_series:
  "unchanged_below n st st' \<Longrightarrow> n \<le> n_series st \<Longrightarrow> n \<le> n_series st'"
  by (simp add: unchanged_below_def)

lemma unchanged_categorical_updates:
  "unchanged_below n st
     (store_of (categorical_updates fullmatch r unique_values srs_in vals upd st))"
proof (induction vals arbitrary: upd st)
  case Nil
  then show ?case by simp
next
  case (Cons v vals)
  let ?m = "map (fullmatch v) srs_in"
  let ?k = "length (filter (\<lambda>b. b) ?m)"
  let ?ch = "rng_choice r (setdiff1d unique_values v) ?k st"
  show ?case
  proof (cases "?k = 0")
    case True
    have "categorical_updates fullmatch r unique_values srs_in (v # vals) upd st =
        categorical_updates fullmatch r unique_values srs_in vals upd st"
      by (subst categorical_updates.simps) (simp only: Let_def True if_True refl)
    with Cons.IH show ?thesis by simp
  next
    case False
    have eq: "categorical_updates fullmatch r unique_values srs_in (v # vals) upd st =
        (case ?ch of Raise e st' \<Rightarrow> Raise e st'
         | Return new st' \<Rightarrow>
             categorical_updates fullmatch r unique_values srs_in vals
               (put_mask ?m upd (map Some new)) st')"
      by (subst categorical_updates.simps) (simp only: Let_def False if_False refl)
    have u: "unchanged_below n st (store_of ?ch)" by simp
    show ?thesis
    proof (cases ?ch)
      case (Raise e st')
      have "unchanged_below n st st'" using u unfolding Raise by (simp only: store_of_simps)
      then show ?thesis unfolding eq Raise by (simp only: result.case store_of_simps)
    next
      case (Return new st')
      have "unchanged_below n st st'" using u unfolding Return by (simp only: store_of_simps)
      moreover have "unchanged_below n st'
          (store_of (categorical_updates fullmatch r unique_values srs_in vals
               (put_mask ?m upd (map Some new)) st'))"
        by (rule Cons.IH)
      ultimately have "unchanged_below n st
          (store_of (categorical_updates fullmatch r unique_values srs_in vals
               (put_mask ?m upd (map Some new)) st'))"
        by (rule unchanged_below_trans)
      then show ?thesis unfolding eq Return by (simp only: result.case)
    qed
  qed
qed

lemma keeps_series_categorical:
  "keeps_series (categorical_corrupt_list fullmatch unique_values r)"
  unfolding keeps_series_def
proof (intro allI impI)
  fix st :: store and srs_in assume "srs_in < n_series st"
  let ?n = "n_series st"
  let ?cu = "categorical_updates fullmatch r unique_values (series st srs_in) unique_values
             (replicate (length (series st srs_in)) None) st"
  have u1: "unchanged_below ?n st (store_of ?cu)"
    by (rule unchanged_categorical_updates)
  show "unchanged_below ?n st
          (store_of (categorical_corrupt_list fullmatch unique_values r st srs_in))"
  proof (cases ?cu)
    case (Raise e st1)
    with u1 show ?thesis by (simp add: categorical_corrupt_list_def)
  next
    case (Return upd st1)
    with u1 have u: "unchanged_below ?n st st1" by simp
    then have n1: "?n \<le> n_series st1" by (rule unchanged_below_n_series) simp
    let ?st2 = "snd (series_copy st1 srs_in)"
    have "unchanged_below ?n st1 ?st2" using n1 by (rule unchanged_series_copy)
    moreover have "unchanged_below ?n ?st2
        (store_of (update_in_place (n_series st1) (enumerate 0 upd) ?st2))"
      using n1 by (rule unchanged_update_in_place)
    ultimately have "unchanged_below ?n st
        (store_of (update_in_place (n_series st1) (enumerate 0 upd) ?st2))"
      using u by (blast intro: unchanged_below_trans)
    then show ?thesis using Return
      by (simp add: categorical_corrupt_list_def case_series_copy store_of_case)
  qed
qed

lemma unchanged_select_replacements:
  "unchanged_below n st
     (store_of (select_replacements contains r df prob X sources rs rt st))"
proof (induction sources arbitrary: rs rt st)
  case Nil
  then show ?case by simp
next
  case (Cons src sources)
  show ?case
  proof (cases src)
    case None
    then show ?thesis by simp
  next
    case (Some source)
    let ?rand = "fst (rng_random r (length X) st)"
    let ?st1 = "snd (rng_random r (length X) st)"
    let ?m = "map (\<lambda>(c, u, p, src). c \<and> u < p \<and> src = None)
                (zip (map (contains source) X) (zip ?rand (zip prob rs)))"
    let ?k = "length (filter (\<lambda>b. b) ?m)"
    let ?rs = "map2 (\<lambda>b src. if b then Some source else src) ?m rs"
    let ?opts = "map snd (filter (\<lambda>(s, t). s = Some source) df)"
    let ?ch = "rng_choice r (np_array ?opts) ?k ?st1"
    have u1: "unchanged_below n st ?st1" by simp
    have ih: "\<And>rs rt. unchanged_below n st
        (store_of (select_replacements contains r df prob X sources rs rt ?st1))"
      by (rule unchanged_below_trans[OF u1 Cons.IH])
    show ?thesis
    proof (cases "?k = 0")
      case True
      have "select_replacements contains r df prob X (Some source # sources) rs rt st =
          select_replacements contains r df prob X sources rs rt ?st1"
        by (subst select_replacements.simps)
          (simp only: Let_def case_rng_random True if_True refl)
      with ih show ?thesis unfolding Some by (simp only:)
    next
      case k: False
      show ?thesis
      proof (cases "length ?opts = 1")
        case True
        have "select_replacements contains r df prob X (Some source # sources) rs rt st =
            select_replacements contains r df prob X sources ?rs
              (map2 (\<lambda>b tgt. if b then hd ?opts else tgt) ?m rt) ?st1"
          by (subst select_replacements.simps)
            (simp only: Let_def case_rng_random k True if_True if_False refl)
        with ih show ?thesis unfolding Some by (simp only:)
      next
        case False
        have eq: "select_replacements contains r df prob X (Some source # sources) rs rt st =
            (case ?ch of Raise e st2 \<Rightarrow> Raise e st2
             | Return targets st2 \<Rightarrow>
                 select_replacements contains r df prob X sources ?rs
                   (put_mask ?m rt targets) st2)"
          by (subst select_replacements.simps)
            (simp only: Let_def case_rng_random k False if_False refl)
        have u2: "unchanged_below n st (store_of ?ch)"
          by (rule unchanged_below_trans[OF u1]) simp
        show ?thesis
        proof (cases ?ch)
          case (Raise e st2)
          have "unchanged_below n st st2"
            using u2 unfolding Raise by (simp only: store_of_simps)
          then show ?thesis unfolding Some eq Raise
            by (simp only: result.case store_of_simps)
        next
          case (Return targets st2)
          have "unchanged_below n st st2"
            using u2 unfolding Return by (simp only: store_of_simps)
          moreover have "unchanged_below n st2
              (store_of (select_replacements contains r df prob X sources ?rs
                   (put_mask ?m rt targets) st2))"
            by (rule Cons.IH)
          ultimately have "unchanged_below n st
              (store_of (select_replacements contains r df prob X sources ?rs
                   (put_mask ?m rt targets) st2))"
            by (rule unchanged_below_trans)
          then show ?thesis unfolding Some eq Return by (simp only: result.case)
        qed
      qed
    qed
  qed
qed

lemma unchanged_apply_replacements:
  "n \<le> out \<Longrightarrow>
   unchanged_below n st (store_of (apply_replacements replace_first rs rt pairs out st))"
proof (induction pairs arbitrary: st)
  case Nil
  then show ?case by simp
next
  case (Cons p pairs)
  obtain source target where p: "p = (source, target)" by (cases p)
  show ?case
  proof (cases target)
    case None
    with p show ?thesis by simp
  next
    case (Some tgt)
    let ?st = "series_map_masked out
          (map (\<lambda>(s, t). s = Some source \<and> t = Some tgt) (zip rs rt))
          (replace_first source tgt) st"
    have "unchanged_below n st ?st" by (rule unchanged_series_map_masked[OF Cons.prems])
    moreover have "unchanged_below n ?st
        (store_of (apply_replacements replace_first rs rt pairs out ?st))"
      by (rule Cons.IH[OF Cons.prems])
    ultimately show ?thesis using p Some by (simp add: unchanged_below_trans)
  qed
qed

lemma keeps_series_replacement:
  "keeps_series (replacement_corrupt contains replace_first df r)"
  unfolding keeps_series_def
proof (intro allI impI)
  fix st :: store and srs_in assume "srs_in < n_series st"
  let ?n = "n_series st"
  let ?X = "series st srs_in"
  let ?st1 = "snd (series_copy st srs_in)"
  let ?srcs = "unique (map fst df)"
  have u1: "unchanged_below ?n st ?st1" by (rule unchanged_series_copy) simp
  show "unchanged_below ?n st
          (store_of (replacement_corrupt contains replace_first df r st srs_in))"
  proof (cases "count_sources contains ?srcs ?X (replicate (length ?X) 0)")
    case (Inl e)
    with u1 show ?thesis
      by (simp add: replacement_corrupt_def series_copy_def Let_def)
  next
    case (Inr counts)
    let ?prob = "map (\<lambda>p. if p \<noteq> 0 then 1 / p else p) counts"
    let ?sr = "select_replacements contains r df ?prob ?X ?srcs
                 (replicate (length ?X) None) (replicate (length ?X) None) ?st1"
    have u2: "unchanged_below ?n st (store_of ?sr)"
      by (rule unchanged_below_trans[OF u1 unchanged_select_replacements])
    have eq: "replacement_corrupt contains replace_first df r st srs_in =
        (case ?sr of Raise e st2 \<Rightarrow> Raise e st2
         | Return (repl_source, repl_target) st2 \<Rightarrow>
             apply_replacements replace_first repl_source repl_target
               (selected_pairs repl_source repl_target) ?n st2)"
      using Inr
      by (simp add: replacement_corrupt_def series_copy_def Let_def cong: result.case_cong)
    show ?thesis
    proof (cases ?sr)
      case (Raise e st2)
      with u2 show ?thesis unfolding eq by simp
    next
      case (Return cols st2)
      obtain rs rt where cols: "cols = (rs, rt)" by (cases cols)
      from u2 Return have "unchanged_below ?n st st2" by simp
      moreover have "unchanged_below ?n st2
          (store_of (apply_replacements replace_first rs rt (selected_pairs rs rt) ?n st2))"
        by (rule unchanged_apply_replacements) simp
      ultimately show ?thesis unfolding eq Return cols
        by (simp add: unchanged_below_trans)
    qed
  qed
qed

lemma unchanged_corrupt_masked:
  assumes k: "keeps_series corr" and n: "n \<le> out" "n \<le> n_series st"
  shows "unchanged_below n st (store_of (corrupt_masked corr msk out st))"
proof (cases "length (filter (\<lambda>b. b) msk) = 0")
  case True
  then show ?thesis by (simp add: corrupt_masked_def)
next
  case False
  let ?sel = "n_series st"
  let ?st1 = "snd (series_select (index st out) msk (series st out) st)"
  have u1: "unchanged_below n st ?st1" using n(2) by (rule unchanged_series_select)
  have sel: "?sel < n_series ?st1" by simp
  have "unchanged_below (n_series ?st1) ?st1 (store_of (corr ?st1 ?sel))"
    using k sel unfolding keeps_series_def by blast
  then have "unchanged_below n ?st1 (store_of (corr ?st1 ?sel))"
    by (rule unchanged_below_mono) (use n(2) in simp)
  with u1 have u2: "unchanged_below n st (store_of (corr ?st1 ?sel))"
    by (rule unchanged_below_trans)
  have eq: "corrupt_masked corr msk out st =
      (case corr ?st1 ?sel of
         Raise e st2 \<Rightarrow> Raise e st2
       | Return res st2 \<Rightarrow>
           Return () (st2\<lparr>series := (series st2)
                             (out := put_mask msk (series st2 out) (series st2 res))\<rparr>))"
    using False by (simp add: corrupt_masked_def case_prod_unfold)
  show ?thesis
  proof (cases "corr ?st1 ?sel")
    case (Raise e st2)
    have "unchanged_below n st st2" using u2 unfolding Raise by (simp only: store_of_simps)
    then show ?thesis unfolding eq Raise by (simp only: result.case store_of_simps)
  next
    case (Return res st2)
    have "unchanged_below n st st2" using u2 unfolding Return by (simp only: store_of_simps)
    moreover have "unchanged_below n st2
        (st2\<lparr>series := (series st2)(out := put_mask msk (series st2 out) (series st2 res))\<rparr>)"
      using n(1) by (rule unchanged_write)
    ultimately have "unchanged_below n st
        (st2\<lparr>series := (series st2)(out := put_mask msk (series st2 out) (series st2 res))\<rparr>)"
      by (rule unchanged_below_trans)
    then show ?thesis unfolding eq Return by (simp only: result.case store_of_simps)
  qed
qed

lemma unchanged_then_corrupt_masked:
  assumes u: "unchanged_below n st0 st" and k: "keeps_series corr"
    and n: "n \<le> out" "n \<le> n_series st0"
  shows "unchanged_below n st0 (store_of (corrupt_masked corr msk out st))"
proof -
  have "n \<le> n_series st" using u n(2) by (rule unchanged_below_n_series)
  then have "unchanged_below n st (store_of (corrupt_masked corr msk out st))"
    using k n(1) by (intro unchanged_corrupt_masked)
  with u show ?thesis by (rule unchanged_below_trans)
qed

lemma keeps_series_edit:
  assumes "keeps_series corr_ins" "keeps_series corr_del" "keeps_series corr_sub"
    "keeps_series corr_trs"
  shows "keeps_series (edit_corrupt_list probs r corr_ins corr_del corr_sub corr_trs)"
  unfolding keeps_series_def
proof (intro allI impI)
  fix st :: store and srs_in assume "srs_in < n_series st"
  let ?n = "n_series st"
  let ?st1 = "snd (series_copy st srs_in)"
  let ?ch = "rng_choice_p r [Ins, Del, Sub, Trs] probs (length (series st srs_in)) ?st1"
  have u1: "unchanged_below ?n st ?st1" by (rule unchanged_series_copy) simp
  have u2: "unchanged_below ?n st (store_of ?ch)"
    by (rule unchanged_below_trans[OF u1]) simp
  have eq: "edit_corrupt_list probs r corr_ins corr_del corr_sub corr_trs st srs_in =
     (case ?ch of
             Raise e st2 \<Rightarrow> Raise e st2
           | Return str_in_edit_ops st2 \<Rightarrow>
               (case corrupt_masked corr_ins (map (\<lambda>op. op = Ins) str_in_edit_ops) ?n st2 of
                  Raise e st3 \<Rightarrow> Raise e st3
                | Return _ st3 \<Rightarrow>
               (case corrupt_masked corr_del (map (\<lambda>op. op = Del) str_in_edit_ops) ?n st3 of
                  Raise e st4 \<Rightarrow> Raise e st4
                | Return _ st4 \<Rightarrow>
               (case corrupt_masked corr_sub (map (\<lambda>op. op = Sub) str_in_edit_ops) ?n st4 of
                  Raise e st5 \<Rightarrow> Raise e st5
                | Return _ st5 \<Rightarrow>
               (case corrupt_masked corr_trs (map (\<lambda>op. op = Trs) str_in_edit_ops) ?n st5 of
                  Raise e st6 \<Rightarrow> Raise e st6
                | Return _ st6 \<Rightarrow> Return ?n st6)))))"
    by (simp add: edit_corrupt_list_def series_copy_def cong: result.case_cong)
  show "unchanged_below ?n st
     (store_of (edit_corrupt_list probs r corr_ins corr_del corr_sub corr_trs st srs_in))"
  proof (cases ?ch)
    case (Raise e st2)
    have "unchanged_below ?n st st2" using u2 unfolding Raise by (simp only: store_of_simps)
    then show ?thesis
              by (simp only: eq Raise result.case store_of_simps)
  next
    case (Return ops st2)
    have a2: "unchanged_below ?n st st2"
      using u2 unfolding Return by (simp only: store_of_simps)
    let ?c3 = "corrupt_masked corr_ins (map (\<lambda>op. op = Ins) ops) ?n st2"
    have u3: "unchanged_below ?n st (store_of ?c3)"
      using a2 assms(1) by (rule unchanged_then_corrupt_masked) simp_all
    show ?thesis
    proof (cases ?c3)
      case (Raise e st3)
      have "unchanged_below ?n st st3" using u3 unfolding Raise by (simp only: store_of_simps)
      then show ?thesis
              by (simp only: eq Return Raise result.case store_of_simps)
    next
      case r3: (Return x3 st3)
      have a3: "unchanged_below ?n st st3"
        using u3 unfolding r3 by (simp only: store_of_simps)
      let ?c4 = "corrupt_masked corr_del (map (\<lambda>op. op = Del) ops) ?n st3"
      have u4: "unchanged_below ?n st (store_of ?c4)"
        using a3 assms(2) by (rule unchanged_then_corrupt_masked) simp_all
      show ?thesis
      proof (cases ?c4)
        case (Raise e st4)
        have "unchanged_below ?n st st4"
          using u4 unfolding Raise by (simp only: store_of_simps)
        then show ?thesis
              by (simp only: eq Return r3 Raise result.case store_of_simps)
      next
        case r4: (Return x4 st4)
        have a4: "unchanged_below ?n st st4"
          using u4 unfolding r4 by (simp only: store_of_simps)
        let ?c5 = "corrupt_masked corr_sub (map (\<lambda>op. op = Sub) ops) ?n st4"
        have u5: "unchanged_below ?n st (store_of ?c5)"
          using a4 assms(3) by (rule unchanged_then_corrupt_masked) simp_all
        show ?thesis
        proof (cases ?c5)
          case (Raise e st5)
          have "unchanged_below ?n st st5"
            using u5 unfolding Raise by (simp only: store_of_simps)
          then show ?thesis
              by (simp only: eq Return r3 r4 Raise result.case store_of_simps)
        next
          case r5: (Return x5 st5)
          have a5: "unchanged_below ?n st st5"
            using u5 unfolding r5 by (simp only: store_of_simps)
          let ?c6 = "corrupt_masked corr_trs (map (\<lambda>op. op = Trs) ops) ?n st5"
          have u6: "unchanged_below ?n st (store_of ?c6)"
            using a5 assms(4) by (rule unchanged_then_corrupt_masked) simp_all
          show ?thesis
          proof (cases ?c6)
            case (Raise e st6)
            have "unchanged_below ?n st st6"
              using u6 unfolding Raise by (simp only: store_of_simps)
            then show ?thesis
              by (simp only: eq Return r3 r4 r5 Raise result.case store_of_simps)
          next
            case r6: (Return x6 st6)
            have "unchanged_below ?n st st6"
              using u6 unfolding r6 by (simp only: store_of_simps)
            then show ?thesis
              by (simp only: eq Return r3 r4 r5 r6 result.case store_of_simps)
          qed
        qed
      qed
    qed
  qed
qed

lemma with_edit_Return:
  "with_edit p_insert p_delete p_substitute p_transpose charset r st0 = Return corrupt st1
   \<Longrightarrow> keeps_series corrupt"
  by (auto simp: with_edit_def Let_def case_prod_beta
      intro!: keeps_series_edit keeps_series_insert keeps_series_delete
        keeps_series_substitute keeps_series_transpose
      split: if_splits result.splits)

section \<open>The claims\<close>





text \<open>
  C9.  The corruptor built by \<open>with_noop\<close> returns the series it was given (the same
  object, not a copy) and leaves the whole store as it was: every series keeps its
  values, and no generator has moved.
\<close>

theorem with_noop_identity: "with_noop st srs_in = Return srs_in st"
  by (simp add: with_noop_def)

text \<open>
  C10.  When no string of the input has at least one character, the delete and the
  substitute corruptors return the input series itself and leave the store as it was,
  generators included; the transpose corruptor does so when no string has at least two
  characters.
\<close>

theorem short_strings_returned_unchanged:
  "(list_all (\<lambda>s. length s < 1) (series st srs_str_in) \<longrightarrow>
      with_delete r st srs_str_in = Return srs_str_in st
      \<and> with_substitute charset r st srs_str_in = Return srs_str_in st)
 \<and> (list_all (\<lambda>s. length s < 2) (series st srs_str_in) \<longrightarrow>
      with_transpose r st srs_str_in = Return srs_str_in st)"
proof (intro conjI impI)
  assume "list_all (\<lambda>s. length s < 1) (series st srs_str_in)"
  then have v: "min_len_view 1 (series st srs_str_in) = []"
    by (simp only: min_len_view_Nil_iff)
  show "with_delete r st srs_str_in = Return srs_str_in st"
    using v by (simp add: with_delete_def)
  show "with_substitute charset r st srs_str_in = Return srs_str_in st"
    using v by (simp add: with_substitute_def)
next
  assume "list_all (\<lambda>s. length s < 2) (series st srs_str_in)"
  then have v: "min_len_view 2 (series st srs_str_in) = []"
    by (simp only: min_len_view_Nil_iff)
  show "with_transpose r st srs_str_in = Return srs_str_in st"
    using v by (simp add: with_transpose_def)
qed

theorem short_strings_returned_unchanged_witness:
  "list_all (\<lambda>s. length s < 1) (series (example_store ['''', '''']) 0)
   \<and> with_delete 0 (example_store ['''', '''']) 0 = Return 0 (example_store ['''', ''''])
   \<and> with_substitute ''x'' 0 (example_store ['''', '''']) 0 = Return 0 (example_store ['''', ''''])
   \<and> list_all (\<lambda>s. length s < 2) (series (example_store ['''', ''a'']) 0)
   \<and> with_transpose 0 (example_store ['''', ''a'']) 0 = Return 0 (example_store ['''', ''a''])"
  using short_strings_returned_unchanged[of "example_store ['''', '''']" 0 0 "''x''"]
    short_strings_returned_unchanged[of "example_store ['''', ''a'']" 0 0 "''x''"]
  by (simp add: example_store_def)

text \<open>
  C6.  The corruptor built by \<open>with_cldr_keymap_file\<close> always returns, and every string of
  the result either is the input string or differs from it at exactly one position: the
  character there has an entry in the neighbour map, and the new character is one of its
  candidates and another character.  So a character without candidates is never altered,
  and an empty string, which has no position, is returned unchanged.
\<close>

theorem keyboard_typo_neighbor_containment:
  "\<exists>out st'. with_cldr_keymap_file kb_cells r st a = Return out st'
     \<and> list_all2 (\<lambda>s t. t = s \<or>
            (\<exists>i c cands. i < length s \<and> kb_char_to_candidates_dict kb_cells (s ! i) = Some cands
               \<and> c \<in> set cands \<and> c \<noteq> s ! i \<and> t = s[i := c]))
          (series st a) (series st' out)"
proof -
  let ?d = "kb_char_to_candidates_dict kb_cells"
  let ?X = "series st a"
  let ?n = "length ?X"
  let ?st1 = "snd (series_copy st a)"
  let ?us = "fst (rng_random r ?n ?st1)"
  let ?st2 = "snd (rng_random r ?n ?st1)"
  let ?idxs = "map2 floor_index (map length ?X) ?us"
  let ?tc = "fold (\<lambda>i tc. map (\<lambda>(j, s, old). if j = i then str_get i s else old)
                            (zip ?idxs (zip ?X tc)))
              (unique ?idxs) (replicate ?n None)"
  have li: "length ?idxs = ?n" by simp
  have tcf: "length ?tc = length ?X
    \<and> (\<forall>q<length ?X. ?tc ! q =
          (if ?idxs ! q \<in> set (unique ?idxs) then str_get (?idxs ! q) (?X ! q)
           else replicate ?n None ! q))"
    by (rule typo_chars_fold) simp_all
  have ltc: "length ?tc = ?n" using tcf by blast
  have ntc: "?tc ! q = str_get (?idxs ! q) (?X ! q)" if "q < ?n" for q
  proof -
    have "?idxs ! q \<in> set ?idxs" using that li by (simp only: nth_mem)
    then have "?idxs ! q \<in> set (unique ?idxs)" by (simp only: set_unique)
    with tcf that show ?thesis by presburger
  qed
  have dne: "\<forall>c cands. ?d c = Some cands \<longrightarrow> cands \<noteq> []"
    using kb_dict_candidates by blast
  have "\<exists>repl' st'. draw_replacements ?d r ?tc (unique ?tc) (replicate ?n None) ?st2 = Return repl' st'
     \<and> length repl' = length ?tc
     \<and> (\<forall>q<length ?tc. repl' ! q = None \<or>
               (\<exists>c cands x. ?tc ! q = Some c \<and> ?d c = Some cands \<and> x \<in> set cands \<and> repl' ! q = Some x))
     \<and> series st' = series ?st2 \<and> n_series st' = n_series ?st2"
    by (rule draw_replacements_Return[OF dne]) (simp_all add: ltc)
  then obtain repl st3 where
    dr: "draw_replacements ?d r ?tc (unique ?tc) (replicate ?n None) ?st2 = Return repl st3"
    and lr: "length repl = ?n"
    and okr: "\<And>q. q < ?n \<Longrightarrow> repl ! q = None \<or>
               (\<exists>c cands x. ?tc ! q = Some c \<and> ?d c = Some cands \<and> x \<in> set cands \<and> repl ! q = Some x)"
    and s3: "series st3 = series ?st2"
    using ltc by auto
  let ?Y = "fold (\<lambda>i. assign_masked i replace_at ?idxs repl) (unique ?idxs) ?X"
  have ly: "length ?Y = ?n"
    by (rule fold_assign_masked_unique(1)[OF li lr])
  have ny: "\<And>q. q < ?n \<Longrightarrow> ?Y ! q = replace_at (?idxs ! q) (repl ! q) (?X ! q)"
    by (rule fold_assign_masked_unique(2)[OF li lr])
  have res: "with_cldr_keymap_file kb_cells r st a =
      Return (n_series st) (fold (\<lambda>i. series_assign_masked (n_series st) i replace_at ?idxs repl)
                  (unique ?idxs) st3)"
    using dr by (simp add: with_cldr_keymap_file_def Let_def series_copy_def case_rng_random)
  have out: "series (fold (\<lambda>i. series_assign_masked (n_series st) i replace_at ?idxs repl)
                  (unique ?idxs) st3) (n_series st) = ?Y"
    using s3 by (simp add: fold_series_assign_masked series_copy_def)
  have row: "?Y ! q = ?X ! q \<or>
            (\<exists>i c cands. i < length (?X ! q) \<and> ?d (?X ! q ! i) = Some cands
               \<and> c \<in> set cands \<and> c \<noteq> ?X ! q ! i \<and> ?Y ! q = (?X ! q)[i := c])"
    if q: "q < ?n" for q
  proof (cases "repl ! q")
    case None
    then show ?thesis using ny[OF q] by (simp add: replace_at_def)
  next
    case (Some x)
    with okr[OF q] obtain c cands where
      c: "?tc ! q = Some c" "?d c = Some cands" "x \<in> set cands" by auto
    from c(1) ntc[OF q] have i: "?idxs ! q < length (?X ! q)" "c = ?X ! q ! (?idxs ! q)"
      by (auto simp: str_get_def split: if_splits)
    have "x \<noteq> c" using kb_dict_candidates[OF c(2)] c(3) by auto
    moreover have "?Y ! q = (?X ! q)[?idxs ! q := x]"
      using ny[OF q] Some i by (simp add: replace_at_def upd_conv_take_nth_drop)
    ultimately show ?thesis using i c by blast
  qed
  have "list_all2 (\<lambda>s t. t = s \<or>
            (\<exists>i c cands. i < length s \<and> ?d (s ! i) = Some cands
               \<and> c \<in> set cands \<and> c \<noteq> s ! i \<and> t = s[i := c])) ?X ?Y"
    unfolding list_all2_conv_all_nth using ly row by simp
  with res out show ?thesis by (metis (no_types, lifting))
qed

text \<open>
  C4.  Mutual exclusion in the phonetic engine.  For every rule table that the constructor
  accepts, whatever the regular-expression engine does, the corruptor returns, and every
  string of the result either is the input string or is the input string after the one
  substitution of one rule under one of its flags: no string is rewritten by two rules, nor
  under two flags of a rule.
\<close>

theorem phonetic_mutual_exclusion:
  assumes "with_phonetic_replacement_table re_sub df r = Inr corrupt"
  shows "\<exists>rules. parse_rules df = Inr rules \<and>
     (\<exists>out st'. corrupt st a = Return out st' \<and>
        list_all2 (\<lambda>s t. t = s \<or>
            (\<exists>rule\<in>set rules. \<exists>flag\<in>set (flags rule). t = flag_sub re_sub rule flag s))
          (series st a) (series st' out))"
proof -
  from assms obtain rules where p: "parse_rules df = Inr rules"
    and c: "corrupt = phonetic_corrupt re_sub rules r"
    by (auto simp: with_phonetic_replacement_table_def split: sum.splits)
  have valid: "\<forall>rule\<in>set rules. set (flags rule) \<subseteq> {CHR ''^'', CHR ''$'', CHR ''_''}"
    using parse_rules_flags[OF p] by blast
  from phonetic_corrupt_rows[OF valid, of re_sub r st a] p c show ?thesis by blast
qed

theorem phonetic_mutual_exclusion_witness:
  "with_phonetic_replacement_table example_re_sub [(''ph'', ''f'', Some ''^'')] 0
     = Inr (phonetic_corrupt example_re_sub
              [\<lparr>pattern = ''ph'', replacement = ''f'', flags = ''^''\<rparr>] 0)
   \<and> (\<exists>st'. phonetic_corrupt example_re_sub
              [\<lparr>pattern = ''ph'', replacement = ''f'', flags = ''^''\<rparr>] 0
              (example_store [''phil'', ''seph'']) 0 = Return 1 st'
          \<and> series st' 1 = [''fil'', ''seph''])
   \<and> (\<exists>rules. parse_rules [(''ph'', ''f'', Some ''^'')] = Inr rules \<and>
     (\<exists>out st'. phonetic_corrupt example_re_sub
              [\<lparr>pattern = ''ph'', replacement = ''f'', flags = ''^''\<rparr>] 0
              (example_store [''phil'', ''seph'']) 0 = Return out st' \<and>
        list_all2 (\<lambda>s t. t = s \<or>
            (\<exists>rule\<in>set rules. \<exists>flag\<in>set (flags rule). t = flag_sub example_re_sub rule flag s))
          (series (example_store [''phil'', ''seph'']) 0) (series st' out)))"
proof -
  have h: "with_phonetic_replacement_table example_re_sub [(''ph'', ''f'', Some ''^'')] 0
     = Inr (phonetic_corrupt example_re_sub
              [\<lparr>pattern = ''ph'', replacement = ''f'', flags = ''^''\<rparr>] 0)"
    by (simp add: with_phonetic_replacement_table_def validate_flags_def all_flags_def)
  have e: "\<exists>st'. phonetic_corrupt example_re_sub
              [\<lparr>pattern = ''ph'', replacement = ''f'', flags = ''^''\<rparr>] 0
              (example_store [''phil'', ''seph'']) 0 = Return 1 st'
          \<and> series st' 1 = [''fil'', ''seph'']"
    by (simp add: phonetic_corrupt_def series_copy_def example_store_def example_rng_def
        count_rules_def str_flags_def startswith_def endswith_def Let_def
        rng_random_def rng_shuffle_def uniform_def flag_mask_def flag_sub_def
        series_map_masked_def example_re_sub_def)
  from h e phonetic_mutual_exclusion[OF h, of "example_store [''phil'', ''seph'']" 0]
  show ?thesis by blast
qed

text \<open>
  C5.  Phonetic eligibility.  The flags of a string under a rule are computed from the first
  occurrence of the pattern only (\<open>str.find\<close>).  \<open>abab\<close> ends with \<open>ab\<close>, and gets no end
  flag, its first occurrence being at the start; \<open>babab\<close> has \<open>b\<close> in its interior, and gets
  no middle flag.  Where the pattern does not occur, \<open>find\<close> gives -1, and a pattern one
  character longer than the string gets the end flag: \<open>bc\<close> in \<open>a\<close>.
\<close>

theorem phonetic_flags_first_occurrence_only:
  "endswith ''abab'' ''ab''
   \<and> str_flags \<lparr>pattern = ''ab'', replacement = ''x'', flags = ''$''\<rparr> ''abab'' = []
   \<and> str_find ''a'' ''bc'' = - 1
   \<and> str_flags \<lparr>pattern = ''bc'', replacement = ''x'', flags = ''$''\<rparr> ''a'' = ''$''
   \<and> str_flags \<lparr>pattern = ''b'', replacement = ''x'', flags = ''_''\<rparr> ''babab'' = []"
  by (simp add: str_flags_def endswith_def startswith_def)

text \<open>
  C7.  Categorical resample.  The rows of a category are selected with \<open>str.fullmatch\<close>, a
  regular-expression match, not with equality.  With the categories \<open>abc\<close> and \<open>a.c\<close>, the
  row \<open>abc\<close> is first given \<open>a.c\<close> and then, matching the pattern \<open>a.c\<close>, given \<open>abc\<close>
  again: the output equals the input.  With the categories \<open>a.c\<close> and \<open>x\<close>, the row \<open>abc\<close>,
  which is no category, is replaced by \<open>x\<close>.  With one category only there is no other value
  to draw, and the call raises.
\<close>

theorem categorical_fullmatch_is_regex:
  "(\<exists>corrupt st'.
      with_categorical_values dot_fullmatch [[Some ''abc''], [Some ''a.c'']] False (Position 0) 0
        = Inr corrupt
      \<and> corrupt (example_store [''abc'']) 0 = Return 1 st' \<and> series st' 1 = [''abc''])
 \<and> (\<exists>corrupt st'.
      with_categorical_values dot_fullmatch [[Some ''a.c''], [Some ''x'']] False (Position 0) 0
        = Inr corrupt
      \<and> corrupt (example_store [''abc'']) 0 = Return 1 st' \<and> series st' 1 = [''x''])
 \<and> (\<exists>corrupt st'.
      with_categorical_values dot_fullmatch [[Some ''m'']] False (Position 0) 0 = Inr corrupt
      \<and> corrupt (example_store [''m'']) 0
          = Raise (ValueError ''a cannot be empty unless no samples are taken'') st')"
  by (simp add: with_categorical_values_def read_csv_def df_column_def is_str_def
      categorical_corrupt_list_def setdiff1d_def run_defs)

text \<open>
  C8.  Column-type mismatch.  \<open>with_replacement_table\<close> refuses a header together with
  column names, the pairing that agrees, whatever the file; with a header and column
  positions, the mismatch, its check passes (the table lookup fails later with the
  KeyError of the library for the column 0).  \<open>with_categorical_values\<close> has the check the right way round.
\<close>

theorem replacement_table_header_check_inverted:
  "with_replacement_table contains replace_first csv_file True (Name source) (Name target) r
     = Inl (ValueError ''header present, but source and target columns must be strings'')
 \<and> with_replacement_table contains replace_first
       [[Some ''source'', Some ''target''], [Some ''a'', Some ''b'']] True (Position 0) (Position 1) r
     = Inl (KeyError ''0'')
 \<and> with_categorical_values fullmatch csv_file True (Position k) r
     = Inl (ValueError ''header present, but value column must be a string'')
 \<and> (\<exists>corrupt. with_categorical_values fullmatch
       [[Some ''gender''], [Some ''m''], [Some ''f'']] True (Name ''gender'') r = Inr corrupt)"
  by (simp add: with_replacement_table_def with_categorical_values_def is_str_def
      read_csv_def df_column_def Let_def str_nat.simps[of 0])

text \<open>
  C1.  Weights that sum to less than 1.  \<open>corrupt_dataframe\<close> validates the weights of a
  column by drawing with them, and numpy refuses weights that do not sum to 1: the
  specification of the padding test (100 rows of \<open>a\<close>, one corruptor of weight 0.5) raises
  the configuration error, whatever the generator and the store.
\<close>

theorem weights_below_one_rejected:
  "corrupt_dataframe [(''foo'', replicate 100 ''a'')]
     [(''foo'', Weighted [(1 / 2, corrupt_all_from_value ''b'')])] r st
   = Raise (ValueError (''probabilities for column '' @ quoted ''foo'' @ '' must sum up to 1.0'')) st"
  by (simp add: corrupt_dataframe_def weighted_spec_def rng_choice_p_def)

text \<open>
  C2.  Purity.  Every corruption function of the library (keyboard typo, phonetic,
  replacement table, missing value, insert, delete, substitute, transpose, edit composer,
  noop, categorical), called on a series of the store, leaves that series and every other
  series that existed before the call with the values it had, whether the call returns or
  raises: what it writes, it writes to a copy or to a new series.
\<close>

theorem corruptors_keep_their_input:
  "keeps_series (with_cldr_keymap_file kb_cells r)
 \<and> (case with_phonetic_replacement_table re_sub rule_rows r of
      Inr corrupt \<Rightarrow> keeps_series corrupt | Inl e \<Rightarrow> True)
 \<and> (case with_replacement_table contains replace_first csv_file header source_column
           target_column r of
      Inr corrupt \<Rightarrow> keeps_series corrupt | Inl e \<Rightarrow> True)
 \<and> (case with_missing_value v strategy of
      Inr corrupt \<Rightarrow> keeps_series corrupt | Inl e \<Rightarrow> True)
 \<and> keeps_series (with_insert charset r)
 \<and> keeps_series (with_delete r)
 \<and> keeps_series (with_substitute charset r)
 \<and> keeps_series (with_transpose r)
 \<and> (case with_edit p_insert p_delete p_substitute p_transpose charset r st0 of
      Return corrupt st1 \<Rightarrow> keeps_series corrupt | Raise e st1 \<Rightarrow> True)
 \<and> keeps_series with_noop
 \<and> (case with_categorical_values fullmatch csv_file header value_column r of
      Inr corrupt \<Rightarrow> keeps_series corrupt | Inl e \<Rightarrow> True)"
proof (intro conjI)
  show "keeps_series (with_cldr_keymap_file kb_cells r)" by (rule keeps_series_keymap)
  show "case with_phonetic_replacement_table re_sub rule_rows r of
      Inr corrupt \<Rightarrow> keeps_series corrupt | Inl e \<Rightarrow> True"
    by (simp add: with_phonetic_replacement_table_def keeps_series_phonetic split: sum.splits)
  show "case with_replacement_table contains replace_first csv_file header source_column
           target_column r of
      Inr corrupt \<Rightarrow> keeps_series corrupt | Inl e \<Rightarrow> True"
    by (simp add: with_replacement_table_def keeps_series_replacement split: sum.splits)
  show "case with_missing_value v strategy of
      Inr corrupt \<Rightarrow> keeps_series corrupt | Inl e \<Rightarrow> True"
    by (simp add: with_missing_value_def keeps_series_missing)
  show "keeps_series (with_insert charset r)" by (rule keeps_series_insert)
  show "keeps_series (with_delete r)" by (rule keeps_series_delete)
  show "keeps_series (with_substitute charset r)" by (rule keeps_series_substitute)
  show "keeps_series (with_transpose r)" by (rule keeps_series_transpose)
  show "case with_edit p_insert p_delete p_substitute p_transpose charset r st0 of
      Return corrupt st1 \<Rightarrow> keeps_series corrupt | Raise e st1 \<Rightarrow> True"
    using with_edit_Return[of p_insert p_delete p_substitute p_transpose charset r st0]
    by (cases "with_edit p_insert p_delete p_substitute p_transpose charset r st0") simp_all
  show "keeps_series with_noop" by (rule keeps_series_noop)
  show "case with_categorical_values fullmatch csv_file header value_column r of
      Inr corrupt \<Rightarrow> keeps_series corrupt | Inl e \<Rightarrow> True"
    by (simp add: with_categorical_values_def keeps_series_categorical split: sum.splits)
qed

theorem corruptors_keep_their_input_witness:
  "0 < n_series (example_store [''ab''])
 \<and> (\<exists>st'. with_delete 0 (example_store [''ab'']) 0 = Return 1 st'
         \<and> series st' 1 = [''b''] \<and> series st' 0 = [''ab''])
 \<and> (\<exists>st'. with_insert ''x'' 0 (example_store [''ab'']) 0 = Return 1 st'
         \<and> series st' 1 = [''xab''] \<and> series st' 0 = [''ab''])"
proof -
  let ?st = "example_store [''ab'']"
  have n: "0 < n_series ?st" by (simp add: example_store_def)
  have k: "keeps_series (with_delete 0)" "keeps_series (with_insert ''x'' 0)"
    using corruptors_keep_their_input[of _ 0 _ _ _ _ _ _ _ _ _ _ "''x''"] by blast+
  have d: "\<exists>st'. with_delete 0 ?st 0 = Return 1 st' \<and> series st' 1 = [''b'']"
    by (simp add: with_delete_def min_len_view_def select_rows_def delete_at_def run_defs)
  have i: "\<exists>st'. with_insert ''x'' 0 ?st 0 = Return 1 st' \<and> series st' 1 = [''xab'']"
    by (simp add: with_insert_def insert_at_def series_assign_masked_def assign_masked_def
        np_str_def run_defs)
  have "unchanged_below (n_series ?st) ?st (store_of (with_delete 0 ?st 0))"
    "unchanged_below (n_series ?st) ?st (store_of (with_insert ''x'' 0 ?st 0))"
    using k n by (simp_all add: keeps_series_def)
  then have "series (store_of (with_delete 0 ?st 0)) 0 = [''ab'']"
    "series (store_of (with_insert ''x'' 0 ?st 0)) 0 = [''ab'']"
    by (simp_all add: unchanged_below_def example_store_def)
  with n d i show ?thesis by auto
qed

end
